theory Spec2Isabelle
  imports Main "HOL-Library.Word"
begin

section \<open>mongo-migrate: the migration orchestrator of migrate.go\<close>

text \<open>
  The theory embeds \<^verbatim>\<open>migrate.go\<close>: the history-collection bootstrap
  (\<^verbatim>\<open>getCollections\<close>, \<^verbatim>\<open>isCollectionExist\<close>,
  \<^verbatim>\<open>createCollectionIfNotExist\<close>), the version resolver
  (\<^verbatim>\<open>Version\<close>, \<^verbatim>\<open>SetVersion\<close>) and the two batch loops
  (\<^verbatim>\<open>Up\<close>, \<^verbatim>\<open>Down\<close>). Methods of \<^verbatim>\<open>*Migrate\<close> are
  named \<open>Migrate_\<close>\<^emph>\<open>method\<close>, because \<^verbatim>\<open>Version\<close>, \<^verbatim>\<open>Up\<close> and
  \<^verbatim>\<open>Down\<close> are also fields of \<^verbatim>\<open>Migration\<close>.
\<close>

subsection \<open>Errors\<close>

text \<open>
  Go error values. \<open>ErrNoDocuments\<close> is the driver's sentinel
  \<^verbatim>\<open>mongo.ErrNoDocuments\<close>; \<open>Failure\<close> is any other error (of the driver or of a
  migration action); \<open>Wrapped msg e\<close> is \<^verbatim>\<open>fmt.Errorf(msg + ": %w", e)\<close>.
  \<open>Panic\<close> is not an error value of Go: it marks a run that a run-time panic (an index
  out of range) would end.
\<close>

datatype error = ErrNoDocuments | Failure string | Wrapped string error | Panic string

text \<open>\<^verbatim>\<open>errors.Is\<close>: the error itself or one it wraps is the target.\<close>

fun errors_Is :: "error \<Rightarrow> error \<Rightarrow> bool" where
  "errors_Is (Wrapped msg e) target = (Wrapped msg e = target \<or> errors_Is e target)"
| "errors_Is e target = (e = target)"

subsection \<open>Data\<close>

type_synonym uint64 = "64 word"

record collectionSpecification =
  Name :: string
  Type :: string

text \<open>The fields of \<^verbatim>\<open>versionRecord\<close> carry their bson names; the timestamp is an
  instant of the clock, counted in some unit.\<close>

record versionRecord =
  version :: uint64
  description :: string
  timestamp :: nat

definition defaultMigrationsCollection :: string where
  "defaultMigrationsCollection = ''migrations''"

definition AllAvailable :: int where
  "AllAvailable = - 1"

subsection \<open>The database behind the driver\<close>

text \<open>
  \<^verbatim>\<open>*mongo.Database\<close> is a handle on state outside the program. The model of that
  state holds what the code can observe through the driver calls it makes:
  \<^item> \<open>listing\<close>: the entries \<^verbatim>\<open>ListCollections\<close> enumerates (collections and views),
    each with its name and type;
  \<^item> \<open>documents\<close>: the documents of each collection in insertion order (ascending
    \<^verbatim>\<open>_id\<close>), as the version records they decode to;
  \<^item> \<open>faults\<close>: the outcomes of the coming driver calls. Every driver call that
    returns an error value takes the head of this schedule: \<open>Some msg\<close> makes the call
    fail with \<open>Failure msg\<close>, \<open>None\<close> or an exhausted schedule lets it succeed. A state
    with \<open>faults = []\<close> is a database that answers every call;
  \<^item> \<open>clock\<close>: what \<^verbatim>\<open>time.Now().UTC()\<close> reads.
\<close>

record database =
  listing :: "collectionSpecification list"
  documents :: "string \<Rightarrow> versionRecord list"
  faults :: "string option list"
  clock :: nat

definition driver_call :: "database \<Rightarrow> error option \<times> database" where
  "driver_call d =
     (case faults d of
        [] \<Rightarrow> (None, d)
      | f # fs \<Rightarrow> (map_option Failure f, d\<lparr>faults := fs\<rparr>))"

text \<open>\<^verbatim>\<open>db.RunCommand(ctx, bson.D{{"create", name}}).Err()\<close>: on success the
  database lists a new collection of that name.\<close>

definition RunCommand_create :: "string \<Rightarrow> database \<Rightarrow> error option \<times> database" where
  "RunCommand_create name d =
     (case driver_call d of
        (Some err, d') \<Rightarrow> (Some err, d')
      | (None, d') \<Rightarrow>
          (None, d'\<lparr>listing := listing d' @ [\<lparr>Name = name, Type = ''collection''\<rparr>]\<rparr>))"

text \<open>
  \<^verbatim>\<open>db.Collection(name).InsertOne(ctx, rec)\<close>. The driver first encodes the record
  as BSON, which has no unsigned 64-bit integer: its encoder writes a \<^verbatim>\<open>uint64\<close> as
  an \<^verbatim>\<open>int64\<close> and refuses a value above \<^verbatim>\<open>math.MaxInt64\<close> ("overflows int64")
  before anything is sent, whatever the state of the database. Otherwise the call goes to
  the database, and on success the document is the newest of the collection.
\<close>

definition MaxInt64 :: uint64 where
  "MaxInt64 = 9223372036854775807"

definition InsertOne :: "string \<Rightarrow> versionRecord \<Rightarrow> database \<Rightarrow> error option \<times> database" where
  "InsertOne name rec d =
     (if version rec > MaxInt64 then (Some (Failure ''overflows int64''), d)
      else
        (case driver_call d of
           (Some err, d') \<Rightarrow> (Some err, d')
         | (None, d') \<Rightarrow>
             (None, d'\<lparr>documents := (documents d')(name := documents d' name @ [rec])\<rparr>)))"

text \<open>\<^verbatim>\<open>db.Collection(name).FindOne(ctx, bson.D{{}}, sort by _id descending)\<close>: the
  single result holds the newest document, or the error \<^verbatim>\<open>result.Err()\<close> reports.\<close>

definition FindOne :: "string \<Rightarrow> database \<Rightarrow> (error + versionRecord) \<times> database" where
  "FindOne name d =
     (case driver_call d of
        (Some err, d') \<Rightarrow> (Inl err, d')
      | (None, d') \<Rightarrow>
          (if documents d' name = [] then (Inl ErrNoDocuments, d')
           else (Inr (last (documents d' name)), d')))"

subsection \<open>Migrations and the orchestrator's state\<close>

text \<open>
  Modelled from the spec: the types \<^verbatim>\<open>MigrationFunc\<close> and \<^verbatim>\<open>Migration\<close> are
  declared in a file that is not part of the sources at hand. The spec (section 3) has a
  migration hold a "\<open>version\<close> (unsigned integer ...), \<open>description\<close> (free text,
  optional), \<open>up\<close> (optional forward action), \<open>down\<close> (optional backward action)", and
  "an action is a function of the database handle that performs arbitrary effects and can
  fail". This is also how \<^verbatim>\<open>Up\<close> and \<^verbatim>\<open>Down\<close> use them: the version is compared
  with the \<^verbatim>\<open>uint64\<close> current version, an action is compared with nil and called with
  the database handle, and returns an error. An action is any function of the database
  state to an optional error and a new state; a nil action is \<open>None\<close>.
\<close>

type_synonym MigrationFunc = "database \<Rightarrow> error option \<times> database"

record Migration =
  Version :: uint64
  Description :: string
  Up :: "MigrationFunc option"
  Down :: "MigrationFunc option"

text \<open>
  Modelled from the spec: the interface \<^verbatim>\<open>Logger\<close> is declared outside
  \<^verbatim>\<open>migrate.go\<close> as well; the spec (section 4.6) has it an "optional capability with a
  single operation: format-and-emit a message", and \<^verbatim>\<open>printf\<close> calls its
  \<^verbatim>\<open>Printf\<close>. A logger is the list of the calls it has received: format, version,
  description.
\<close>

type_synonym Logger = "(string \<times> uint64 \<times> string) list"

text \<open>
  The struct \<^verbatim>\<open>Migrate\<close>, with the state of the database its \<open>db\<close> field points to.
  \<open>invoked\<close> is not a field of the struct: it is a journal of the migrations whose action
  has been called, kept so that statements about which actions run can be written. No
  function reads it.
\<close>

record Migrate =
  db :: database
  migrations :: "Migration list"
  migrationsCollection :: string
  log :: "Logger option"
  invoked :: "Migration list"

definition NewMigrate :: "database \<Rightarrow> Migration list \<Rightarrow> Migrate" where
  "NewMigrate d ms =
     \<lparr>db = d, migrations = ms, migrationsCollection = defaultMigrationsCollection,
      log = None, invoked = []\<rparr>"

definition Migrate_SetMigrationsCollection :: "Migrate \<Rightarrow> string \<Rightarrow> Migrate" where
  "Migrate_SetMigrationsCollection m name = m\<lparr>migrationsCollection := name\<rparr>"

definition Migrate_SetLogger :: "Migrate \<Rightarrow> Logger option \<Rightarrow> Migrate" where
  "Migrate_SetLogger m l = m\<lparr>log := l\<rparr>"

definition Migrate_printf :: "Migrate \<Rightarrow> string \<Rightarrow> uint64 \<Rightarrow> string \<Rightarrow> Migrate" where
  "Migrate_printf m msg v d =
     (case log m of
        None \<Rightarrow> m
      | Some lines \<Rightarrow> m\<lparr>log := Some (lines @ [(msg, v, d)])\<rparr>)"

definition Migrate_printUp :: "Migrate \<Rightarrow> uint64 \<Rightarrow> string \<Rightarrow> Migrate" where
  "Migrate_printUp m migrationVersion migrationDescription =
     Migrate_printf m ''Migrated UP: %d %s'' migrationVersion migrationDescription"

definition Migrate_printDown :: "Migrate \<Rightarrow> uint64 \<Rightarrow> string \<Rightarrow> Migrate" where
  "Migrate_printDown m migrationVersion migrationDescription =
     Migrate_printf m ''Migrated DOWN: %d %s'' migrationVersion migrationDescription"

text \<open>
  Modelled from the spec: \<^verbatim>\<open>migrationSort\<close> is called by \<^verbatim>\<open>Up\<close> and \<^verbatim>\<open>Down\<close> but
  defined in a file that is not part of the sources at hand. The spec has it "sort
  Registry ascending by version (stable, deterministic total order)"; \<open>sort_key\<close>
  is the stable insertion sort of the list library.
\<close>

definition migrationSort :: "Migration list \<Rightarrow> Migration list" where
  "migrationSort ms = sort_key Version ms"

subsection \<open>Bootstrap of the history collection\<close>

text \<open>
  The loop \<^verbatim>\<open>for cursor.Next(ctx) { ... }\<close> of \<^verbatim>\<open>getCollections\<close> with what
  follows it up to the return. The first argument is what the cursor still holds, the
  second the slice \<open>collections\<close> built so far. Each round makes two driver calls,
  \<^verbatim>\<open>cursor.Next\<close> and \<^verbatim>\<open>cursor.Decode\<close>; the last round only the first. A
  failing \<^verbatim>\<open>Next\<close> ends the loop and is what \<^verbatim>\<open>cursor.Err()\<close> then reports.
  The result is the pair of named results \<open>(collections, err)\<close> at the return statement.
\<close>

fun cursor_loop ::
  "collectionSpecification list \<Rightarrow> collectionSpecification list \<Rightarrow> database \<Rightarrow>
     (collectionSpecification list \<times> error option) \<times> database" where
  "cursor_loop [] collections d =
     (case driver_call d of
        (Some err, d') \<Rightarrow> (([], Some err), d')
      | (None, d') \<Rightarrow> ((collections, None), d'))"
| "cursor_loop (collection # rest) collections d =
     (case driver_call d of
        (Some err, d') \<Rightarrow> (([], Some err), d')
      | (None, d') \<Rightarrow>
          (case driver_call d' of
             (Some err, d'') \<Rightarrow> (([], Some err), d'')
           | (None, d'') \<Rightarrow>
               (if length (Type collection) = 0 \<or> Type collection = ''collection''
                then cursor_loop rest (collections @ [collection]) d''
                else cursor_loop rest collections d'')))"

text \<open>
  \<^verbatim>\<open>getCollections\<close>: \<^verbatim>\<open>ListCollections\<close>, the loop, and the deferred
  \<^verbatim>\<open>cursor.Close\<close>, which replaces or wraps the error result.
\<close>

definition Migrate_getCollections ::
  "Migrate \<Rightarrow> (collectionSpecification list \<times> error option) \<times> Migrate" where
  "Migrate_getCollections m =
     (case driver_call (db m) of
        (Some err, d1) \<Rightarrow> (([], Some err), m\<lparr>db := d1\<rparr>)
      | (None, d1) \<Rightarrow>
          (case cursor_loop (listing d1) [] d1 of
             ((collections, err), d2) \<Rightarrow>
               (case driver_call d2 of
                  (None, d3) \<Rightarrow> ((collections, err), m\<lparr>db := d3\<rparr>)
                | (Some curErr, d3) \<Rightarrow>
                    (case err of
                       Some e \<Rightarrow>
                         ((collections, Some (Wrapped ''migrate: get collection failed'' e)),
                          m\<lparr>db := d3\<rparr>)
                     | None \<Rightarrow> ((collections, Some curErr), m\<lparr>db := d3\<rparr>)))))"

definition Migrate_isCollectionExist :: "Migrate \<Rightarrow> string \<Rightarrow> (bool \<times> error option) \<times> Migrate" where
  "Migrate_isCollectionExist m name =
     (case Migrate_getCollections m of
        ((collections, Some err), m') \<Rightarrow> ((False, Some err), m')
      | ((collections, None), m') \<Rightarrow>
          (if list_ex (\<lambda>c. name = Name c) collections then ((True, None), m')
           else ((False, None), m')))"

definition Migrate_createCollectionIfNotExist :: "Migrate \<Rightarrow> string \<Rightarrow> error option \<times> Migrate" where
  "Migrate_createCollectionIfNotExist m name =
     (case Migrate_isCollectionExist m name of
        ((exist, Some err), m') \<Rightarrow> (Some err, m')
      | ((exist, None), m') \<Rightarrow>
          (if exist then (None, m')
           else (case RunCommand_create name (db m') of
                   (Some err, d') \<Rightarrow> (Some err, m'\<lparr>db := d'\<rparr>)
                 | (None, d') \<Rightarrow> (None, m'\<lparr>db := d'\<rparr>))))"

subsection \<open>Version and SetVersion\<close>

text \<open>The result of \<^verbatim>\<open>Version\<close> is the triple the Go function returns. The
  driver call after \<^verbatim>\<open>FindOne\<close> is \<^verbatim>\<open>result.Decode\<close>. \<^verbatim>\<open>SetVersion\<close> stamps
  the record with the reading of the clock.\<close>

definition Migrate_Version :: "Migrate \<Rightarrow> (uint64 \<times> string \<times> error option) \<times> Migrate" where
  "Migrate_Version m =
     (case Migrate_createCollectionIfNotExist m (migrationsCollection m) of
        (Some err, m1) \<Rightarrow> ((0, '''', Some err), m1)
      | (None, m1) \<Rightarrow>
          (case FindOne (migrationsCollection m1) (db m1) of
             (Inl err, d2) \<Rightarrow>
               (if errors_Is err ErrNoDocuments then ((0, '''', None), m1\<lparr>db := d2\<rparr>)
                else ((0, '''', Some err), m1\<lparr>db := d2\<rparr>))
           | (Inr doc, d2) \<Rightarrow>
               (case driver_call d2 of
                  (Some err, d3) \<Rightarrow> ((0, '''', Some err), m1\<lparr>db := d3\<rparr>)
                | (None, d3) \<Rightarrow> ((version doc, description doc, None), m1\<lparr>db := d3\<rparr>))))"

definition Migrate_SetVersion :: "Migrate \<Rightarrow> uint64 \<Rightarrow> string \<Rightarrow> error option \<times> Migrate" where
  "Migrate_SetVersion m v d =
     (let rec = \<lparr>version = v, description = d, timestamp = clock (db m)\<rparr> in
      case InsertOne (migrationsCollection m) rec (db m) of
        (Some err, d') \<Rightarrow> (Some err, m\<lparr>db := d'\<rparr>)
      | (None, d') \<Rightarrow> (None, m\<lparr>db := d'\<rparr>))"

text \<open>What the methods above leave alone: they act on the database only.\<close>

lemma driver_call_frame:
  "driver_call d = (r, d') \<Longrightarrow>
     listing d' = listing d \<and> documents d' = documents d \<and> clock d' = clock d"
  by (auto simp: driver_call_def split: list.splits)

lemma SetVersion_frame:
  "Migrate_SetVersion m v d = (r, m') \<Longrightarrow>
     migrations m' = migrations m \<and> migrationsCollection m' = migrationsCollection m \<and>
     log m' = log m \<and> invoked m' = invoked m"
  by (auto simp: Migrate_SetVersion_def Let_def split: prod.splits option.splits)

lemma InsertOne_result:
  assumes "InsertOne name rec d = (r, d')"
  shows "listing d' = listing d \<and> clock d' = clock d \<and> set (faults d') \<subseteq> set (faults d) \<and>
         documents d' =
           (if r = None then (documents d)(name := documents d name @ [rec]) else documents d)"
proof (cases "version rec > MaxInt64")
  case True
  with assms show ?thesis by (auto simp: InsertOne_def)
next
  case False
  obtain r1 d1 where c: "driver_call d = (r1, d1)" by (cases "driver_call d")
  have "set (faults d1) \<subseteq> set (faults d)"
    using c by (auto simp: driver_call_def split: list.splits)
  with assms False c driver_call_frame [OF c] show ?thesis
    by (cases r1) (auto simp: InsertOne_def)
qed

lemma SetVersion_result:
  assumes "Migrate_SetVersion m v d = (r, m')"
  shows "listing (db m') = listing (db m) \<and> clock (db m') = clock (db m) \<and>
         set (faults (db m')) \<subseteq> set (faults (db m)) \<and>
         documents (db m') =
           (if r = None
            then (documents (db m))(migrationsCollection m :=
                   documents (db m) (migrationsCollection m) @
                     [\<lparr>version = v, description = d, timestamp = clock (db m)\<rparr>])
            else documents (db m))"
proof -
  let ?rec = "\<lparr>version = v, description = d, timestamp = clock (db m)\<rparr>"
  obtain r1 d1 where i: "InsertOne (migrationsCollection m) ?rec (db m) = (r1, d1)"
    by (cases "InsertOne (migrationsCollection m) ?rec (db m)")
  with assms have "r = r1 \<and> db m' = d1"
    by (cases r1) (auto simp: Migrate_SetVersion_def Let_def)
  with InsertOne_result [OF i] show ?thesis by auto
qed

lemma printf_frame:
  "migrations (Migrate_printf m msg v d) = migrations m \<and>
   migrationsCollection (Migrate_printf m msg v d) = migrationsCollection m \<and>
   invoked (Migrate_printf m msg v d) = invoked m \<and>
   db (Migrate_printf m msg v d) = db m"
  by (simp add: Migrate_printf_def split: option.splits)

subsection \<open>Up\<close>

text \<open>
  The loop \<^verbatim>\<open>for i, p := 0, 0; i < len(m.migrations) && p < n; i++\<close> of
  \<^verbatim>\<open>Up\<close>, as a function of the loop variables and the state. The journal entry is
  written where the action is called.
\<close>

function Up_loop :: "uint64 \<Rightarrow> int \<Rightarrow> nat \<Rightarrow> int \<Rightarrow> Migrate \<Rightarrow> error option \<times> Migrate" where
  "Up_loop currentVersion n i p m =
     (if i < length (migrations m) \<and> p < n then
        (let migration = migrations m ! i in
         if Version migration \<le> currentVersion \<or> Up migration = None
         then Up_loop currentVersion n (i + 1) p m
         else
           (case the (Up migration) (db m) of
              (Some err, d') \<Rightarrow> (Some err, m\<lparr>db := d', invoked := invoked m @ [migration]\<rparr>)
            | (None, d') \<Rightarrow>
                (case Migrate_SetVersion (m\<lparr>db := d', invoked := invoked m @ [migration]\<rparr>)
                        (Version migration) (Description migration) of
                   (Some err, m') \<Rightarrow> (Some err, m')
                 | (None, m') \<Rightarrow>
                     Up_loop currentVersion n (i + 1) (p + 1)
                       (Migrate_printUp m' (Version migration) (Description migration)))))
      else (None, m))"
  by pat_completeness auto
termination
proof (relation "measure (\<lambda>(currentVersion, n, i, p, m). length (migrations m) - i)")
  show "wf (measure (\<lambda>(currentVersion, n, i, p, m). length (migrations m) - i))"
    by simp
next
  fix currentVersion :: uint64 and n p :: int and i :: nat and m :: Migrate
  assume "i < length (migrations m) \<and> p < n"
  then show "((currentVersion, n, i + 1, p, m), (currentVersion, n, i, p, m))
      \<in> measure (\<lambda>(currentVersion, n, i, p, m). length (migrations m) - i)"
    by auto
next
  fix currentVersion :: uint64 and n p :: int and i :: nat and m m' :: Migrate
    and migration :: Migration and d' :: database and r :: "error option"
  assume bound: "i < length (migrations m) \<and> p < n"
    and sv: "(r, m') = Migrate_SetVersion (m\<lparr>db := d', invoked := invoked m @ [migration]\<rparr>)
                (Version migration) (Description migration)"
  from sv have "migrations m' = migrations m"
    using SetVersion_frame [of "m\<lparr>db := d', invoked := invoked m @ [migration]\<rparr>"
        "Version migration" "Description migration" r m'] by simp
  with bound show "((currentVersion, n, i + 1, p + 1,
        Migrate_printUp m' (Version migration) (Description migration)),
       (currentVersion, n, i, p, m))
      \<in> measure (\<lambda>(currentVersion, n, i, p, m). length (migrations m) - i)"
    by (auto simp: Migrate_printUp_def printf_frame)
qed

declare Up_loop.simps [simp del]

definition Migrate_Up :: "Migrate \<Rightarrow> int \<Rightarrow> error option \<times> Migrate" where
  "Migrate_Up m n =
     (case Migrate_Version m of
        ((currentVersion, d, Some err), m1) \<Rightarrow> (Some err, m1)
      | ((currentVersion, d, None), m1) \<Rightarrow>
          (let n' = (if n \<le> 0 \<or> n > int (length (migrations m1))
                     then int (length (migrations m1)) else n);
               m2 = m1\<lparr>migrations := migrationSort (migrations m1)\<rparr>
           in Up_loop currentVersion n' 0 0 m2))"

subsection \<open>Down\<close>

text \<open>
  The loop \<^verbatim>\<open>for i, p := len(m.migrations)-1, 0; i >= 0 && p < n; i--\<close> of
  \<^verbatim>\<open>Down\<close>. The index is an \<^verbatim>\<open>int\<close> that ends at \<open>-1\<close>. Go panics on
  \<^verbatim>\<open>m.migrations[i]\<close> with \<open>i\<close> beyond the slice; the loop starts below its length.
\<close>

function Down_loop :: "uint64 \<Rightarrow> int \<Rightarrow> int \<Rightarrow> int \<Rightarrow> Migrate \<Rightarrow> error option \<times> Migrate" where
  "Down_loop currentVersion n i p m =
     (if i \<ge> 0 \<and> p < n then
        (if nat i < length (migrations m) then
           (let migration = migrations m ! nat i in
            if Version migration > currentVersion \<or> Down migration = None
            then Down_loop currentVersion n (i - 1) p m
            else
              (case the (Down migration) (db m) of
                 (Some err, d') \<Rightarrow> (Some err, m\<lparr>db := d', invoked := invoked m @ [migration]\<rparr>)
               | (None, d') \<Rightarrow>
                   (let prevMigration =
                          (if i = 0 then \<lparr>Version = 0, Description = '''', Up = None, Down = None\<rparr>
                           else migrations m ! nat (i - 1))
                    in case Migrate_SetVersion (m\<lparr>db := d', invoked := invoked m @ [migration]\<rparr>)
                              (Version prevMigration) (Description prevMigration) of
                         (Some err, m') \<Rightarrow> (Some err, m')
                       | (None, m') \<Rightarrow>
                           Down_loop currentVersion n (i - 1) (p + 1)
                             (Migrate_printDown m' (Version migration) (Description migration)))))
         else (Some (Panic ''index out of range''), m))
      else (None, m))"
  by pat_completeness auto
termination
  by (relation "measure (\<lambda>(currentVersion, n, i, p, m). nat (i + 1))") auto

declare Down_loop.simps [simp del]

definition Migrate_Down :: "Migrate \<Rightarrow> int \<Rightarrow> error option \<times> Migrate" where
  "Migrate_Down m n =
     (case Migrate_Version m of
        ((currentVersion, d, Some err), m1) \<Rightarrow> (Some err, m1)
      | ((currentVersion, d, None), m1) \<Rightarrow>
          (let n' = (if n \<le> 0 \<or> n > int (length (migrations m1))
                     then int (length (migrations m1)) else n);
               m2 = m1\<lparr>migrations := migrationSort (migrations m1)\<rparr>
           in Down_loop currentVersion n' (int (length (migrations m2)) - 1) 0 m2))"

subsection \<open>What the version resolver leaves alone\<close>

text \<open>The bootstrap and the query change neither a document nor the clock, and of the
  orchestrator only the database.\<close>

lemma cursor_loop_frame:
  "cursor_loop items acc d = (r, d') \<Longrightarrow>
     listing d' = listing d \<and> documents d' = documents d \<and> clock d' = clock d"
proof (induction items acc d rule: cursor_loop.induct)
  case (1 collections d)
  then show ?case
    by (auto split: prod.splits option.splits dest: driver_call_frame)
next
  case (2 collection rest collections d)
  obtain r1 d1 where c1: "driver_call d = (r1, d1)" by (cases "driver_call d")
  obtain r2 d2 where c2: "driver_call d1 = (r2, d2)" by (cases "driver_call d1")
  note f1 = driver_call_frame [OF c1] and f2 = driver_call_frame [OF c2]
  show ?case
  proof (cases r1)
    case (Some e)
    with "2.prems" c1 f1 show ?thesis by auto
  next
    case None
    note r1 = this
    show ?thesis
    proof (cases r2)
      case (Some e)
      with "2.prems" c1 c2 r1 f1 f2 show ?thesis by auto
    next
      case None
      with "2.prems" "2.IH" c1 c2 r1 f1 f2 show ?thesis
        by (auto split: if_splits)
    qed
  qed
qed

lemma getCollections_frame:
  "Migrate_getCollections m = (r, m') \<Longrightarrow>
     migrations m' = migrations m \<and> migrationsCollection m' = migrationsCollection m \<and>
     log m' = log m \<and> invoked m' = invoked m \<and>
     listing (db m') = listing (db m) \<and> documents (db m') = documents (db m) \<and>
     clock (db m') = clock (db m)"
  by (auto simp: Migrate_getCollections_def split: prod.splits option.splits
      dest!: driver_call_frame cursor_loop_frame)

lemma isCollectionExist_frame:
  "Migrate_isCollectionExist m name = (r, m') \<Longrightarrow>
     migrations m' = migrations m \<and> migrationsCollection m' = migrationsCollection m \<and>
     log m' = log m \<and> invoked m' = invoked m \<and>
     listing (db m') = listing (db m) \<and> documents (db m') = documents (db m) \<and>
     clock (db m') = clock (db m)"
  by (auto simp: Migrate_isCollectionExist_def split: prod.splits option.splits if_splits
      dest!: getCollections_frame)

lemma RunCommand_create_frame:
  "RunCommand_create name d = (r, d') \<Longrightarrow> documents d' = documents d \<and> clock d' = clock d"
  by (auto simp: RunCommand_create_def split: prod.splits option.splits dest!: driver_call_frame)

lemma createCollectionIfNotExist_frame:
  "Migrate_createCollectionIfNotExist m name = (r, m') \<Longrightarrow>
     migrations m' = migrations m \<and> migrationsCollection m' = migrationsCollection m \<and>
     log m' = log m \<and> invoked m' = invoked m \<and> documents (db m') = documents (db m) \<and>
     clock (db m') = clock (db m)"
  by (auto simp: Migrate_createCollectionIfNotExist_def split: prod.splits option.splits if_splits
      dest!: isCollectionExist_frame RunCommand_create_frame)

lemma FindOne_frame:
  "FindOne name d = (r, d') \<Longrightarrow> documents d' = documents d \<and> clock d' = clock d"
  by (auto simp: FindOne_def split: prod.splits option.splits if_splits dest!: driver_call_frame)

lemma Version_frame:
  "Migrate_Version m = (r, m') \<Longrightarrow>
     migrations m' = migrations m \<and> migrationsCollection m' = migrationsCollection m \<and>
     log m' = log m \<and> invoked m' = invoked m \<and> documents (db m') = documents (db m) \<and>
     clock (db m') = clock (db m)"
  by (auto simp: Migrate_Version_def split: prod.splits option.splits if_splits sum.splits
      dest!: createCollectionIfNotExist_frame FindOne_frame driver_call_frame)

subsection \<open>The batches as the spec words them\<close>

text \<open>
  The definitions of this section follow the spec's sections 4.4 and 4.5, not the code:
  a batch is a plan, the list of steps to apply, and the plan is run step by step until
  one fails ("stop and return the first error encountered from either the action or the
  record append ... no automatic rollback").
\<close>

fun run_steps ::
  "('a \<Rightarrow> Migrate \<Rightarrow> error option \<times> Migrate) \<Rightarrow> 'a list \<Rightarrow> Migrate \<Rightarrow> error option \<times> Migrate" where
  "run_steps step [] m = (None, m)"
| "run_steps step (x # xs) m =
     (case step x m of
        (Some err, m') \<Rightarrow> (Some err, m')
      | (None, m') \<Rightarrow> run_steps step xs m')"

text \<open>"\<open>n <= 0\<close> means run all eligible, \<open>n > len(migrations)\<close> is clamped to
  \<open>len(migrations)\<close>."\<close>

definition step_budget :: "int \<Rightarrow> nat \<Rightarrow> nat" where
  "step_budget n len = (if n \<le> 0 \<or> n > int len then len else nat n)"

text \<open>"A migration is eligible iff \<open>version > v\<close> and it has a forward action."\<close>

definition up_eligible :: "uint64 \<Rightarrow> Migration \<Rightarrow> bool" where
  "up_eligible v mg = (Version mg > v \<and> Up mg \<noteq> None)"

text \<open>"Invoke the forward action, then append a VersionRecord with that migration's
  version/description", then "emit an observable migrated-up notification".\<close>

definition up_step :: "Migration \<Rightarrow> Migrate \<Rightarrow> error option \<times> Migrate" where
  "up_step mg m =
     (case the (Up mg) (db m) of
        (Some err, d') \<Rightarrow> (Some err, m\<lparr>db := d', invoked := invoked m @ [mg]\<rparr>)
      | (None, d') \<Rightarrow>
          (case Migrate_SetVersion (m\<lparr>db := d', invoked := invoked m @ [mg]\<rparr>)
                  (Version mg) (Description mg) of
             (Some err, m') \<Rightarrow> (Some err, m')
           | (None, m') \<Rightarrow> (None, Migrate_printUp m' (Version mg) (Description mg))))"

text \<open>"Sort Registry ascending by version", "scan ascending", "apply up to \<open>n\<close> eligible
  migrations in ascending version order".\<close>

definition up_plan :: "uint64 \<Rightarrow> int \<Rightarrow> Migration list \<Rightarrow> Migration list" where
  "up_plan v n ms =
     take (step_budget n (length ms)) (filter (up_eligible v) (migrationSort ms))"

text \<open>The loop of \<^verbatim>\<open>Up\<close>, entered at index \<open>i\<close> with \<open>p\<close> steps done, runs the
  eligible migrations from \<open>i\<close> on, as many as the budget still allows.\<close>

lemma up_step_migrations: "up_step mg m = (r, m') \<Longrightarrow> migrations m' = migrations m"
  by (auto simp: up_step_def Migrate_printUp_def printf_frame
      split: prod.splits option.splits dest!: SetVersion_frame)

lemma Up_loop_run:
  "p \<le> n \<Longrightarrow>
   Up_loop v n i p m =
     run_steps up_step (take (nat (n - p)) (filter (up_eligible v) (drop i (migrations m)))) m"
proof (induction v n i p m rule: Up_loop.induct)
  case (1 v n i p m)
  show ?case
  proof (cases "i < length (migrations m) \<and> p < n")
    case False
    then show ?thesis using "1.prems" by (auto simp: Up_loop.simps [of v n i p m])
  next
    case True
    let ?mg = "migrations m ! i"
    from True have dr: "drop i (migrations m) = ?mg # drop (Suc i) (migrations m)"
      by (simp add: Cons_nth_drop_Suc)
    show ?thesis
    proof (cases "Version ?mg \<le> v \<or> Up ?mg = None")
      case skip: True
      then have ne: "\<not> up_eligible v ?mg" by (auto simp: up_eligible_def)
      have "Up_loop v n i p m = Up_loop v n (i + 1) p m"
        using True skip by (auto simp: Up_loop.simps [of v n i p m] Let_def)
      also have "\<dots> = run_steps up_step
          (take (nat (n - p)) (filter (up_eligible v) (drop (i + 1) (migrations m)))) m"
        using "1.IH"(1) [OF True refl skip] "1.prems" by simp
      finally show ?thesis using dr ne by simp
    next
      case run: False
      then have el: "up_eligible v ?mg" by (auto simp: up_eligible_def)
      from True obtain k where k: "nat (n - p) = Suc k" "nat (n - (p + 1)) = k"
        by (cases "nat (n - p)") (auto simp: nat_diff_distrib)
      obtain r1 d1 where a: "the (Up ?mg) (db m) = (r1, d1)" by (cases "the (Up ?mg) (db m)")
      let ?m1 = "m\<lparr>db := d1, invoked := invoked m @ [?mg]\<rparr>"
      obtain r2 m2 where sv: "Migrate_SetVersion ?m1 (Version ?mg) (Description ?mg) = (r2, m2)"
        by (cases "Migrate_SetVersion ?m1 (Version ?mg) (Description ?mg)")
      let ?m3 = "Migrate_printUp m2 (Version ?mg) (Description ?mg)"
      have m3: "migrations ?m3 = migrations m"
        using SetVersion_frame [OF sv] by (simp add: Migrate_printUp_def printf_frame)
      show ?thesis
      proof (cases r1)
        case (Some e)
        then have st: "up_step ?mg m = (Some e, ?m1)"
          using a by (simp add: up_step_def)
        have "Up_loop v n i p m = (Some e, ?m1)"
          using True run a Some by (auto simp: Up_loop.simps [of v n i p m] Let_def)
        then show ?thesis using st dr el k by simp
      next
        case None
        note r1 = this
        show ?thesis
        proof (cases r2)
          case (Some e)
          then have st: "up_step ?mg m = (Some e, m2)"
            using a sv r1 by (simp add: up_step_def)
          have "Up_loop v n i p m = (Some e, m2)"
            using True run a sv r1 Some by (auto simp: Up_loop.simps [of v n i p m] Let_def)
          then show ?thesis using st dr el k by simp
        next
          case None
          then have st: "up_step ?mg m = (None, ?m3)"
            using a sv r1 by (simp add: up_step_def)
          have "Up_loop v n i p m = Up_loop v n (i + 1) (p + 1) ?m3"
            using True run a sv r1 None by (auto simp: Up_loop.simps [of v n i p m] Let_def)
          also have "\<dots> = run_steps up_step
              (take (nat (n - (p + 1))) (filter (up_eligible v) (drop (i + 1) (migrations ?m3)))) ?m3"
            using "1.IH"(2) [OF True refl run a [symmetric] r1 sv [symmetric] None] True
            by simp
          finally show ?thesis
            using st dr el k m3 by simp
        qed
      qed
    qed
  qed
qed


text \<open>"Eligible iff \<open>version <= v\<close> and the migration has a backward action."\<close>

definition down_eligible :: "uint64 \<Rightarrow> Migration \<Rightarrow> bool" where
  "down_eligible v mg = (Version mg \<le> v \<and> Down mg \<noteq> None)"

text \<open>Each migration of the sorted list with "the immediately preceding migration in
  the sorted list", and for the lowest-indexed one "version 0 with empty description
  instead".\<close>

definition with_previous :: "Migration list \<Rightarrow> (Migration \<times> Migration) list" where
  "with_previous ms = zip ms (\<lparr>Version = 0, Description = '''', Up = None, Down = None\<rparr> # ms)"

text \<open>"Invoke the backward action, then record the version of the immediately preceding
  migration ... (description carried from that preceding migration)", then the
  "migrated down" notification.\<close>

definition down_step :: "Migration \<times> Migration \<Rightarrow> Migrate \<Rightarrow> error option \<times> Migrate" where
  "down_step s m =
     (case the (Down (fst s)) (db m) of
        (Some err, d') \<Rightarrow> (Some err, m\<lparr>db := d', invoked := invoked m @ [fst s]\<rparr>)
      | (None, d') \<Rightarrow>
          (case Migrate_SetVersion (m\<lparr>db := d', invoked := invoked m @ [fst s]\<rparr>)
                  (Version (snd s)) (Description (snd s)) of
             (Some err, m') \<Rightarrow> (Some err, m')
           | (None, m') \<Rightarrow> (None, Migrate_printDown m' (Version (fst s)) (Description (fst s)))))"

text \<open>"Scan descending from the highest", "apply up to \<open>n\<close> eligible migrations in
  descending order".\<close>

definition down_plan :: "uint64 \<Rightarrow> int \<Rightarrow> Migration list \<Rightarrow> (Migration \<times> Migration) list" where
  "down_plan v n ms =
     take (step_budget n (length ms))
       (filter (\<lambda>s. down_eligible v (fst s)) (rev (with_previous (migrationSort ms))))"

lemma with_previous_length: "length (with_previous ms) = length ms"
  by (simp add: with_previous_def)

lemma with_previous_nth:
  "i < length ms \<Longrightarrow>
   with_previous ms ! i =
     (ms ! i, if i = 0 then \<lparr>Version = 0, Description = '''', Up = None, Down = None\<rparr>
              else ms ! (i - 1))"
  by (cases i) (simp_all add: with_previous_def)

lemma Down_loop_run:
  "p \<le> n \<Longrightarrow> i < int (length (migrations m)) \<Longrightarrow>
   Down_loop v n i p m =
     run_steps down_step
       (take (nat (n - p))
          (filter (\<lambda>s. down_eligible v (fst s))
             (rev (take (nat (i + 1)) (with_previous (migrations m)))))) m"
proof (induction v n i p m rule: Down_loop.induct)
  case (1 v n i p m)
  show ?case
  proof (cases "i \<ge> 0 \<and> p < n")
    case False
    then show ?thesis using "1.prems" by (auto simp: Down_loop.simps [of v n i p m])
  next
    case True
    with "1.prems" have inr: "nat i < length (migrations m)" by auto
    let ?mg = "migrations m ! nat i"
    let ?prev = "if i = 0 then \<lparr>Version = 0, Description = '''', Up = None, Down = None\<rparr>
                 else migrations m ! nat (i - 1)"
    have nth: "with_previous (migrations m) ! nat i = (?mg, ?prev)"
      using with_previous_nth [OF inr] True by (auto simp: nat_diff_distrib)
    have "take (Suc (nat i)) (with_previous (migrations m)) =
            take (nat i) (with_previous (migrations m)) @ [(?mg, ?prev)]"
      using inr nth by (simp add: take_Suc_conv_app_nth with_previous_length)
    moreover have "nat (i + 1) = Suc (nat i)" "nat (i - 1 + 1) = nat i"
      using True by auto
    ultimately have dr: "rev (take (nat (i + 1)) (with_previous (migrations m))) =
        (?mg, ?prev) # rev (take (nat (i - 1 + 1)) (with_previous (migrations m)))"
      by simp
    have below: "i - 1 < int (length (migrations m))" using "1.prems" by simp
    show ?thesis
    proof (cases "Version ?mg > v \<or> Down ?mg = None")
      case skip: True
      then have ne: "\<not> down_eligible v ?mg" by (auto simp: down_eligible_def)
      have "Down_loop v n i p m = Down_loop v n (i - 1) p m"
        using True inr skip by (auto simp: Down_loop.simps [of v n i p m] Let_def)
      also have "\<dots> = run_steps down_step
          (take (nat (n - p)) (filter (\<lambda>s. down_eligible v (fst s))
             (rev (take (nat (i - 1 + 1)) (with_previous (migrations m)))))) m"
        using "1.IH"(1) [OF True inr refl skip] "1.prems" below by simp
      finally show ?thesis using dr ne by simp
    next
      case run: False
      then have el: "down_eligible v ?mg" by (auto simp: down_eligible_def)
      from True obtain k where k: "nat (n - p) = Suc k" "nat (n - (p + 1)) = k"
        by (cases "nat (n - p)") (auto simp: nat_diff_distrib)
      obtain r1 d1 where a: "the (Down ?mg) (db m) = (r1, d1)"
        by (cases "the (Down ?mg) (db m)")
      let ?m1 = "m\<lparr>db := d1, invoked := invoked m @ [?mg]\<rparr>"
      obtain r2 m2 where sv: "Migrate_SetVersion ?m1 (Version ?prev) (Description ?prev) = (r2, m2)"
        by (cases "Migrate_SetVersion ?m1 (Version ?prev) (Description ?prev)")
      let ?m3 = "Migrate_printDown m2 (Version ?mg) (Description ?mg)"
      have m3: "migrations ?m3 = migrations m"
        using SetVersion_frame [OF sv] by (simp add: Migrate_printDown_def printf_frame)
      show ?thesis
      proof (cases r1)
        case (Some e)
        then have st: "down_step (?mg, ?prev) m = (Some e, ?m1)"
          using a by (simp add: down_step_def)
        have "Down_loop v n i p m = (Some e, ?m1)"
          using True inr run a Some by (auto simp: Down_loop.simps [of v n i p m] Let_def)
        then show ?thesis using st dr el k by simp
      next
        case None
        note r1 = this
        show ?thesis
        proof (cases r2)
          case (Some e)
          then have st: "down_step (?mg, ?prev) m = (Some e, m2)"
            using a sv r1 by (simp add: down_step_def)
          have "Down_loop v n i p m = (Some e, m2)"
            using True inr run a sv r1 Some
            by (auto simp: Down_loop.simps [of v n i p m] Let_def)
          then show ?thesis using st dr el k by simp
        next
          case None
          then have st: "down_step (?mg, ?prev) m = (None, ?m3)"
            using a sv r1 by (simp add: down_step_def)
          have "Down_loop v n i p m = Down_loop v n (i - 1) (p + 1) ?m3"
            using True inr run a sv r1 None
            by (auto simp: Down_loop.simps [of v n i p m] Let_def)
          also have "\<dots> = run_steps down_step
              (take (nat (n - (p + 1))) (filter (\<lambda>s. down_eligible v (fst s))
                 (rev (take (nat (i - 1 + 1)) (with_previous (migrations ?m3)))))) ?m3"
            using "1.IH"(2) [OF True inr refl run a [symmetric] r1 refl sv [symmetric] None]
              True below m3
            by simp
          finally show ?thesis
            using st dr el k m3 by simp
        qed
      qed
    qed
  qed
qed

subsection \<open>The code runs the plan\<close>

text \<open>\<^verbatim>\<open>Up\<close> and \<^verbatim>\<open>Down\<close> of the code, after a \<^verbatim>\<open>Version\<close> call that returns
  no error, run the plan of the spec on the sorted registry; after one that fails they
  return its error.\<close>

lemma migrationSort_length: "length (migrationSort ms) = length ms"
  by (simp add: migrationSort_def)

lemma migrationSort_set: "set (migrationSort ms) = set ms"
  by (simp add: migrationSort_def)

lemma migrationSort_sorted: "sorted (map Version (migrationSort ms))"
  by (simp add: migrationSort_def)

lemma Up_run:
  assumes "Migrate_Version m = ((v, d, None), m1)"
  shows "Migrate_Up m n =
           run_steps up_step (up_plan v n (migrations m))
             (m1\<lparr>migrations := migrationSort (migrations m)\<rparr>)"
proof -
  have ms: "migrations m1 = migrations m" using Version_frame [OF assms] by simp
  define n' where
    "n' = (if n \<le> 0 \<or> n > int (length (migrations m)) then int (length (migrations m)) else n)"
  let ?m2 = "m1\<lparr>migrations := migrationSort (migrations m)\<rparr>"
  have b: "0 \<le> n'" "nat (n' - 0) = step_budget n (length (migrations m))"
    by (simp_all add: n'_def step_budget_def)
  have "Migrate_Up m n = Up_loop v n' 0 0 ?m2"
    using assms ms by (simp add: Migrate_Up_def Let_def n'_def)
  also have "\<dots> = run_steps up_step (up_plan v n (migrations m)) ?m2"
    using Up_loop_run [of 0 n' v 0 ?m2] b by (simp add: up_plan_def)
  finally show ?thesis .
qed

lemma Up_Version_error:
  "Migrate_Version m = ((v, d, Some e), m1) \<Longrightarrow> Migrate_Up m n = (Some e, m1)"
  by (simp add: Migrate_Up_def)

lemma Down_run:
  assumes "Migrate_Version m = ((v, d, None), m1)"
  shows "Migrate_Down m n =
           run_steps down_step (down_plan v n (migrations m))
             (m1\<lparr>migrations := migrationSort (migrations m)\<rparr>)"
proof -
  have ms: "migrations m1 = migrations m" using Version_frame [OF assms] by simp
  define n' where
    "n' = (if n \<le> 0 \<or> n > int (length (migrations m)) then int (length (migrations m)) else n)"
  let ?m2 = "m1\<lparr>migrations := migrationSort (migrations m)\<rparr>"
  define i where "i = int (length (migrations ?m2)) - 1"
  have b: "0 \<le> n'" "nat (n' - 0) = step_budget n (length (migrations m))"
    by (simp_all add: n'_def step_budget_def)
  have i: "i < int (length (migrations ?m2))"
    "take (nat (i + 1)) (with_previous (migrations ?m2)) =
       with_previous (migrationSort (migrations m))"
    by (simp_all add: i_def with_previous_length)
  have "Migrate_Down m n = Down_loop v n' i 0 ?m2"
    using assms ms by (simp add: Migrate_Down_def Let_def n'_def i_def)
  also have "\<dots> = run_steps down_step (down_plan v n (migrations m)) ?m2"
    using Down_loop_run [of 0 n' i ?m2 v] b i by (simp add: down_plan_def)
  finally show ?thesis .
qed

lemma Down_Version_error:
  "Migrate_Version m = ((v, d, Some e), m1) \<Longrightarrow> Migrate_Down m n = (Some e, m1)"
  by (simp add: Migrate_Down_def)

subsection \<open>What Version returns, and the failures of the driver\<close>

text \<open>"The current version is defined as the version field of the record with the
  greatest underlying insertion order"; "current version is 0 with empty description when
  no records exist" (spec, section 3).\<close>

definition current_version :: "versionRecord list \<Rightarrow> uint64 \<times> string" where
  "current_version docs =
     (if docs = [] then (0, '''') else (version (last docs), description (last docs)))"

lemma driver_call_healthy: "faults d = [] \<Longrightarrow> driver_call d = (None, d)"
  by (simp add: driver_call_def)

lemma driver_call_error:
  "driver_call d = (r, d') \<Longrightarrow>
     set (faults d') \<subseteq> set (faults d) \<and>
     (\<forall>e. r = Some e \<longrightarrow> (\<exists>msg. e = Failure msg \<and> Some msg \<in> set (faults d)))"
  by (auto simp: driver_call_def split: list.splits)

lemma cursor_loop_healthy:
  "faults d = [] \<Longrightarrow>
   cursor_loop items acc d =
     ((acc @ filter (\<lambda>c. Type c = '''' \<or> Type c = ''collection'') items, None), d)"
  by (induction items arbitrary: acc) (simp_all add: driver_call_healthy)

lemma cursor_loop_result:
  "cursor_loop items acc d = ((cs, None), d') \<Longrightarrow>
   cs = acc @ filter (\<lambda>c. Type c = '''' \<or> Type c = ''collection'') items"
proof (induction items acc d rule: cursor_loop.induct)
  case (1 collections d)
  then show ?case by (auto split: prod.splits option.splits)
next
  case (2 collection rest collections d)
  obtain r1 d1 where c1: "driver_call d = (r1, d1)" by (cases "driver_call d")
  obtain r2 d2 where c2: "driver_call d1 = (r2, d2)" by (cases "driver_call d1")
  from "2.prems" c1 have r1: "r1 = None" by (cases r1) auto
  from "2.prems" c1 c2 r1 have r2: "r2 = None" by (cases r2) auto
  show ?case
    using "2.prems" "2.IH" c1 c2 r1 r2 by (auto split: if_splits)
qed

lemma cursor_loop_error:
  "cursor_loop items acc d = ((cs, r), d') \<Longrightarrow>
     set (faults d') \<subseteq> set (faults d) \<and>
     (\<forall>e. r = Some e \<longrightarrow> (\<exists>msg. e = Failure msg \<and> Some msg \<in> set (faults d)))"
proof (induction items acc d rule: cursor_loop.induct)
  case (1 collections d)
  then show ?case
    by (auto split: prod.splits option.splits dest!: driver_call_error)
next
  case (2 collection rest collections d)
  obtain r1 d1 where c1: "driver_call d = (r1, d1)" by (cases "driver_call d")
  obtain r2 d2 where c2: "driver_call d1 = (r2, d2)" by (cases "driver_call d1")
  note e1 = driver_call_error [OF c1] and e2 = driver_call_error [OF c2]
  show ?case
  proof (cases r1)
    case (Some e)
    with "2.prems" c1 e1 show ?thesis by auto
  next
    case None
    note r1 = this
    show ?thesis
    proof (cases r2)
      case (Some e)
      with "2.prems" c1 c2 r1 have "r = r2" "d' = d2" by auto
      with e1 e2 show ?thesis by blast
    next
      case None
      have "set (faults d') \<subseteq> set (faults d2) \<and>
        (\<forall>e. r = Some e \<longrightarrow> (\<exists>msg. e = Failure msg \<and> Some msg \<in> set (faults d2)))"
        using "2.prems" "2.IH" c1 c2 r1 None by (auto split: if_splits)
      with e1 e2 show ?thesis by blast
    qed
  qed
qed

text \<open>An error that stems from a failing driver call of the schedule \<open>fs\<close>: the failure
  itself, or the failure as \<^verbatim>\<open>getCollections\<close> wraps it.\<close>

definition driver_failure :: "string option list \<Rightarrow> error \<Rightarrow> bool" where
  "driver_failure fs e =
     (case e of
        Failure msg \<Rightarrow> Some msg \<in> set fs
      | Wrapped w (Failure msg) \<Rightarrow> w = ''migrate: get collection failed'' \<and> Some msg \<in> set fs
      | _ \<Rightarrow> False)"

lemma driver_failure_iff:
  "driver_failure fs e =
     (\<exists>msg. Some msg \<in> set fs \<and>
        (e = Failure msg \<or> e = Wrapped ''migrate: get collection failed'' (Failure msg)))"
  by (auto simp: driver_failure_def split: error.splits)

lemma driver_failure_mono: "driver_failure fs e \<Longrightarrow> set fs \<subseteq> set fs' \<Longrightarrow> driver_failure fs' e"
  by (auto simp: driver_failure_iff)

lemma getCollections_healthy:
  "faults (db m) = [] \<Longrightarrow>
   Migrate_getCollections m =
     ((filter (\<lambda>c. Type c = '''' \<or> Type c = ''collection'') (listing (db m)), None), m)"
  by (simp add: Migrate_getCollections_def driver_call_healthy cursor_loop_healthy)

lemma getCollections_result:
  assumes "Migrate_getCollections m = ((cs, None), m')"
  shows "cs = filter (\<lambda>c. Type c = '''' \<or> Type c = ''collection'') (listing (db m))"
proof -
  obtain r1 d1 where c1: "driver_call (db m) = (r1, d1)" by (cases "driver_call (db m)")
  obtain cs2 r2 d2 where c2: "cursor_loop (listing d1) [] d1 = ((cs2, r2), d2)"
    by (metis prod.collapse)
  obtain r3 d3 where c3: "driver_call d2 = (r3, d3)" by (cases "driver_call d2")
  from assms c1 have r1: "r1 = None" by (cases r1) (auto simp: Migrate_getCollections_def)
  from assms c1 c2 c3 r1 have r3: "r3 = None"
    by (cases r3; cases r2) (auto simp: Migrate_getCollections_def)
  from assms c1 c2 c3 r1 r3 have "cs2 = cs" "r2 = None"
    by (auto simp: Migrate_getCollections_def)
  with c2 cursor_loop_result [of "listing d1" "[]" d1 cs d2] driver_call_frame [OF c1]
  show ?thesis by simp
qed

lemma getCollections_error:
  assumes "Migrate_getCollections m = ((cs, r), m')"
  shows "set (faults (db m')) \<subseteq> set (faults (db m)) \<and>
         (\<forall>e. r = Some e \<longrightarrow> driver_failure (faults (db m)) e)"
proof -
  obtain r1 d1 where c1: "driver_call (db m) = (r1, d1)" by (cases "driver_call (db m)")
  obtain cs2 r2 d2 where c2: "cursor_loop (listing d1) [] d1 = ((cs2, r2), d2)"
    by (metis prod.collapse)
  obtain r3 d3 where c3: "driver_call d2 = (r3, d3)" by (cases "driver_call d2")
  note e1 = driver_call_error [OF c1] and e2 = cursor_loop_error [OF c2]
    and e3 = driver_call_error [OF c3]
  show ?thesis
  proof (cases r1)
    case (Some e)
    with assms c1 e1 show ?thesis
      by (auto simp: Migrate_getCollections_def driver_failure_iff)
  next
    case None
    with assms c1 c2 c3 have res:
      "r = (case r3 of None \<Rightarrow> r2
            | Some curErr \<Rightarrow> (case r2 of Some e \<Rightarrow> Some (Wrapped ''migrate: get collection failed'' e)
                               | None \<Rightarrow> Some curErr))"
      "db m' = d3"
      by (auto simp: Migrate_getCollections_def split: option.splits)
    have sub: "set (faults d3) \<subseteq> set (faults (db m))" "set (faults d2) \<subseteq> set (faults (db m))"
      "set (faults d1) \<subseteq> set (faults (db m))"
      using e1 e2 e3 by auto
    have "\<forall>e. r = Some e \<longrightarrow> driver_failure (faults (db m)) e"
      using res(1) e2 e3 sub
      by (cases r3; cases r2) (auto simp: driver_failure_iff)
    with sub res show ?thesis by simp
  qed
qed

lemma isCollectionExist_error:
  assumes "Migrate_isCollectionExist m name = ((b, r), m')"
  shows "set (faults (db m')) \<subseteq> set (faults (db m)) \<and>
         (\<forall>e. r = Some e \<longrightarrow> driver_failure (faults (db m)) e)"
proof -
  obtain cs r0 m0 where g: "Migrate_getCollections m = ((cs, r0), m0)"
    by (metis prod.collapse)
  from assms g have "r = r0" "m' = m0"
    by (auto simp: Migrate_isCollectionExist_def split: option.splits if_splits)
  with getCollections_error [OF g] show ?thesis by simp
qed

lemma RunCommand_create_error:
  "RunCommand_create name d = (r, d') \<Longrightarrow>
     set (faults d') \<subseteq> set (faults d) \<and>
     (\<forall>e. r = Some e \<longrightarrow> (\<exists>msg. e = Failure msg \<and> Some msg \<in> set (faults d)))"
  by (auto simp: RunCommand_create_def split: prod.splits option.splits dest!: driver_call_error)

lemma createCollectionIfNotExist_error:
  assumes "Migrate_createCollectionIfNotExist m name = (r, m')"
  shows "set (faults (db m')) \<subseteq> set (faults (db m)) \<and>
         (\<forall>e. r = Some e \<longrightarrow> driver_failure (faults (db m)) e)"
proof -
  obtain b r0 m0 where g: "Migrate_isCollectionExist m name = ((b, r0), m0)"
    by (metis prod.collapse)
  obtain r1 d1 where c: "RunCommand_create name (db m0) = (r1, d1)"
    by (cases "RunCommand_create name (db m0)")
  note e0 = isCollectionExist_error [OF g] and e1 = RunCommand_create_error [OF c]
  show ?thesis
  proof (cases r0)
    case (Some e)
    with assms g e0 show ?thesis by (auto simp: Migrate_createCollectionIfNotExist_def)
  next
    case None
    show ?thesis
    proof (cases b)
      case True
      with assms g None e0 show ?thesis by (auto simp: Migrate_createCollectionIfNotExist_def)
    next
      case False
      with assms g None c have "r = r1" "db m' = d1"
        by (auto simp: Migrate_createCollectionIfNotExist_def split: option.splits)
      moreover have "\<forall>e. r1 = Some e \<longrightarrow> driver_failure (faults (db m)) e"
        using e0 e1 unfolding driver_failure_iff by blast
      ultimately show ?thesis using e0 e1 by auto
    qed
  qed
qed

text \<open>\<^verbatim>\<open>Version\<close> returns \<open>(0, "")\<close> with every error; without one it returns the
  newest record of the history, or \<open>(0, "")\<close> when there is none; and its error is a
  failure of the driver.\<close>

lemma Version_result:
  assumes "Migrate_Version m = ((v, d, r), m')"
  shows "(r = None \<longrightarrow> (v, d) = current_version (documents (db m) (migrationsCollection m)))
       \<and> (r \<noteq> None \<longrightarrow> (v, d) = (0, ''''))
       \<and> (\<forall>e. r = Some e \<longrightarrow> driver_failure (faults (db m)) e)
       \<and> set (faults (db m')) \<subseteq> set (faults (db m))"
proof -
  let ?coll = "migrationsCollection m"
  obtain r0 m0 where g: "Migrate_createCollectionIfNotExist m ?coll = (r0, m0)"
    by (cases "Migrate_createCollectionIfNotExist m ?coll")
  note f0 = createCollectionIfNotExist_frame [OF g] and e0 = createCollectionIfNotExist_error [OF g]
  show ?thesis
  proof (cases r0)
    case (Some e)
    with assms g e0 show ?thesis by (auto simp: Migrate_Version_def)
  next
    case None
    note r0 = this
    obtain r1 d1 where c1: "driver_call (db m0) = (r1, d1)" by (cases "driver_call (db m0)")
    note f1 = driver_call_frame [OF c1] and e1 = driver_call_error [OF c1]
    show ?thesis
    proof (cases r1)
      case (Some e)
      then obtain msg where msg: "e = Failure msg" "Some msg \<in> set (faults (db m0))"
        using e1 by auto
      with assms g r0 c1 Some have "v = 0" "d = ''''" "r = Some e" "db m' = d1"
        by (auto simp: Migrate_Version_def FindOne_def f0)
      moreover have "driver_failure (faults (db m)) e"
        using msg e0 unfolding driver_failure_iff by blast
      ultimately show ?thesis using e0 e1 by auto
    next
      case None
      note r1 = this
      show ?thesis
      proof (cases "documents (db m) ?coll = []")
        case True
        with assms g r0 c1 r1 f0 f1 have "v = 0" "d = ''''" "r = None" "db m' = d1"
          by (auto simp: Migrate_Version_def FindOne_def)
        with True e0 e1 show ?thesis by (auto simp: current_version_def)
      next
        case False
        obtain r2 d2 where c2: "driver_call d1 = (r2, d2)" by (cases "driver_call d1")
        note e2 = driver_call_error [OF c2]
        from assms g r0 c1 r1 f0 f1 False c2 have res:
          "(v, d, r) = (case r2 of Some err \<Rightarrow> (0, '''', Some err)
              | None \<Rightarrow> (version (last (documents (db m) ?coll)),
                           description (last (documents (db m) ?coll)), None))"
          "db m' = d2"
          by (auto simp: Migrate_Version_def FindOne_def split: option.splits)
        have sub: "set (faults d2) \<subseteq> set (faults (db m))" "set (faults d1) \<subseteq> set (faults (db m))"
          using e0 e1 e2 by auto
        show ?thesis
        proof (cases r2)
          case None
          with res False sub show ?thesis by (auto simp: current_version_def)
        next
          case (Some e)
          with e2 sub have "driver_failure (faults (db m)) e"
            unfolding driver_failure_iff by blast
          with res Some sub show ?thesis by auto
        qed
      qed
    qed
  qed
qed

lemma Version_healthy:
  assumes "faults (db m) = []"
  shows "fst (Migrate_Version m) =
           (fst (current_version (documents (db m) (migrationsCollection m))),
            snd (current_version (documents (db m) (migrationsCollection m))), None)"
proof -
  obtain v d r m' where ver: "Migrate_Version m = ((v, d, r), m')"
    by (metis prod.collapse)
  from Version_result [OF ver] assms have "r = None"
    by (cases r) (auto simp: driver_failure_iff)
  with Version_result [OF ver] ver show ?thesis by (metis fst_conv snd_conv)
qed

subsection \<open>Runs of a plan\<close>

text \<open>A failed run: some steps succeed, the next one fails, and its outcome is the run's.\<close>

lemma run_steps_failure:
  "run_steps step xs m = (Some e, m') \<Longrightarrow>
   \<exists>k<length xs. \<exists>mk. run_steps step (take k xs) m = (None, mk) \<and>
      step (xs ! k) mk = (Some e, m')"
proof (induction xs arbitrary: m)
  case Nil
  then show ?case by simp
next
  case (Cons x xs)
  obtain r1 m1 where s: "step x m = (r1, m1)" by (cases "step x m")
  show ?case
  proof (cases r1)
    case (Some e1)
    with Cons.prems s have "step ((x # xs) ! 0) m = (Some e, m')" by simp
    moreover have "run_steps step (take 0 (x # xs)) m = (None, m)" by simp
    ultimately show ?thesis by blast
  next
    case None
    with Cons.prems s have "run_steps step xs m1 = (Some e, m')" by simp
    from Cons.IH [OF this] obtain k mk where k: "k < length xs"
      "run_steps step (take k xs) m1 = (None, mk)" "step (xs ! k) mk = (Some e, m')"
      by blast
    then have "Suc k < length (x # xs)"
      "run_steps step (take (Suc k) (x # xs)) m = (None, mk)"
      "step ((x # xs) ! Suc k) mk = (Some e, m')"
      using s None by simp_all
    then show ?thesis by blast
  qed
qed

text \<open>A successful run: what every successful step appends to a list kept in the state
  (the journal, the history) is appended in the order of the plan.\<close>

lemma run_steps_success_appends:
  assumes "\<And>x m m'. x \<in> set xs \<Longrightarrow> step x m = (None, m') \<Longrightarrow> g m' = g m @ [item x]"
    and "run_steps step xs m = (None, m')"
  shows "g m' = g m @ map item xs"
  using assms
proof (induction xs arbitrary: m)
  case Nil
  then show ?case by simp
next
  case (Cons x xs)
  obtain r1 m1 where s: "step x m = (r1, m1)" by (cases "step x m")
  with Cons.prems(2) have r1: "r1 = None" and rest: "run_steps step xs m1 = (None, m')"
    by (cases r1; simp)+
  have "g m1 = g m @ [item x]" using Cons.prems(1) [of x m m1] s r1 by simp
  moreover have "g m' = g m1 @ map item xs"
    using Cons.IH [OF _ rest] Cons.prems(1) by simp
  ultimately show ?case by simp
qed

lemma run_steps_keeps:
  assumes "\<And>x m r m'. x \<in> set xs \<Longrightarrow> step x m = (r, m') \<Longrightarrow> q m' = q m"
    and "run_steps step xs m = (r, m')"
  shows "q m' = q m"
  using assms
proof (induction xs arbitrary: m)
  case Nil
  then show ?case by simp
next
  case (Cons x xs)
  obtain r1 m1 where s: "step x m = (r1, m1)" by (cases "step x m")
  have q1: "q m1 = q m" using Cons.prems(1) [of x m r1 m1] s by simp
  show ?case
  proof (cases r1)
    case (Some e)
    with Cons.prems(2) s q1 show ?thesis by simp
  next
    case None
    with Cons.prems(2) s have rest: "run_steps step xs m1 = (r, m')" by simp
    have "q m' = q m1"
    proof (rule Cons.IH [OF _ rest])
      fix y ma ra ma'
      assume "y \<in> set xs" "step y ma = (ra, ma')"
      then show "q ma' = q ma" using Cons.prems(1) [of y ma ra ma'] by simp
    qed
    with q1 show ?thesis by simp
  qed
qed

lemma up_step_effect:
  "up_step mg m = (r, m') \<Longrightarrow>
     migrations m' = migrations m \<and> migrationsCollection m' = migrationsCollection m \<and>
     invoked m' = invoked m @ [mg]"
  by (auto simp: up_step_def Migrate_printUp_def printf_frame
      split: prod.splits option.splits dest!: SetVersion_frame)

lemma down_step_effect:
  "down_step s m = (r, m') \<Longrightarrow>
     migrations m' = migrations m \<and> migrationsCollection m' = migrationsCollection m \<and>
     invoked m' = invoked m @ [fst s]"
  by (auto simp: down_step_def Migrate_printDown_def printf_frame
      split: prod.splits option.splits dest!: SetVersion_frame)

text \<open>The journal after a run, failed or not: the labels of the steps that were started.\<close>

lemma run_steps_invoked:
  assumes step: "\<And>x m r m'. step x m = (r, m') \<Longrightarrow> invoked m' = invoked m @ [label x]"
    and run: "run_steps step xs m = (r, m')"
  shows "\<exists>k\<le>length xs. invoked m' = invoked m @ map label (take k xs) \<and>
           (r = None \<longrightarrow> k = length xs)"
proof (cases r)
  case None
  with run have "invoked m' = invoked m @ map label xs"
    using run_steps_success_appends [of xs step invoked label m m'] step by blast
  with None show ?thesis by auto
next
  case (Some e)
  with run_steps_failure [of step xs m e m'] run obtain k mk where k: "k < length xs"
    "run_steps step (take k xs) m = (None, mk)" "step (xs ! k) mk = (Some e, m')"
    by blast
  have "invoked mk = invoked m @ map label (take k xs)"
    using run_steps_success_appends [of "take k xs" step invoked label m mk] step k(2) by blast
  moreover have "invoked m' = invoked mk @ [label (xs ! k)]" using step [OF k(3)] .
  ultimately have "invoked m' = invoked m @ map label (take (Suc k) xs)"
    using k(1) by (simp add: take_Suc_conv_app_nth)
  with k(1) Some show ?thesis by (intro exI [of _ "Suc k"]) auto
qed

subsection \<open>The history of a run\<close>

text \<open>The history: version and description of the records of the history collection,
  oldest first.\<close>

definition history :: "Migrate \<Rightarrow> (uint64 \<times> string) list" where
  "history m = map (\<lambda>r. (version r, description r)) (documents (db m) (migrationsCollection m))"

text \<open>An action that, run on the database of a state, leaves the history of that state
  as it is, whatever else it does and whether it succeeds or not.\<close>

definition keeps_history :: "MigrationFunc \<Rightarrow> Migrate \<Rightarrow> bool" where
  "keeps_history f m = (history (m\<lparr>db := snd (f (db m))\<rparr>) = history m)"

lemma current_version_history:
  "current_version (documents (db m) (migrationsCollection m)) =
     (if history m = [] then (0, '''') else last (history m))"
  by (simp add: current_version_def history_def last_map)

lemma SetVersion_history:
  assumes "Migrate_SetVersion m v d = (r, m')"
  shows "history m' = history m @ (if r = None then [(v, d)] else [])"
  using SetVersion_result [OF assms] SetVersion_frame [OF assms]
  by (simp add: history_def)

lemma up_step_history:
  assumes "up_step mg m = (r, m')"
    and "keeps_history (the (Up mg)) m"
  shows "history m' = history m @ (if r = None then [(Version mg, Description mg)] else [])"
proof -
  obtain r1 d1 where a: "the (Up mg) (db m) = (r1, d1)" by (cases "the (Up mg) (db m)")
  let ?m1 = "m\<lparr>db := d1, invoked := invoked m @ [mg]\<rparr>"
  have h1: "history ?m1 = history m"
    using assms(2) a by (simp add: keeps_history_def history_def)
  show ?thesis
  proof (cases r1)
    case (Some e)
    with assms(1) a h1 show ?thesis by (auto simp: up_step_def)
  next
    case None
    obtain r2 m2 where sv: "Migrate_SetVersion ?m1 (Version mg) (Description mg) = (r2, m2)"
      by (cases "Migrate_SetVersion ?m1 (Version mg) (Description mg)")
    have "history (Migrate_printUp m2 (Version mg) (Description mg)) = history m2"
      by (simp add: history_def Migrate_printUp_def printf_frame)
    with assms(1) a None sv SetVersion_history [OF sv] h1 show ?thesis
      by (cases r2) (auto simp: up_step_def)
  qed
qed

lemma down_step_history:
  assumes "down_step s m = (r, m')"
    and "keeps_history (the (Down (fst s))) m"
  shows "history m' = history m @ (if r = None then [(Version (snd s), Description (snd s))] else [])"
proof -
  obtain r1 d1 where a: "the (Down (fst s)) (db m) = (r1, d1)"
    by (cases "the (Down (fst s)) (db m)")
  let ?m1 = "m\<lparr>db := d1, invoked := invoked m @ [fst s]\<rparr>"
  have h1: "history ?m1 = history m"
    using assms(2) a by (simp add: keeps_history_def history_def)
  show ?thesis
  proof (cases r1)
    case (Some e)
    with assms(1) a h1 show ?thesis by (auto simp: down_step_def)
  next
    case None
    obtain r2 m2 where
      sv: "Migrate_SetVersion ?m1 (Version (snd s)) (Description (snd s)) = (r2, m2)"
      by (cases "Migrate_SetVersion ?m1 (Version (snd s)) (Description (snd s))")
    have "history (Migrate_printDown m2 (Version (fst s)) (Description (fst s))) = history m2"
      by (simp add: history_def Migrate_printDown_def printf_frame)
    with assms(1) a None sv SetVersion_history [OF sv] h1 show ?thesis
      by (cases r2) (auto simp: down_step_def)
  qed
qed

text \<open>A run that fails at step \<open>k\<close>: the steps before it succeed, and the outcome of
  step \<open>k\<close> is the run's.\<close>

lemma run_steps_fails_at:
  assumes "k < length xs"
    and "run_steps step (take k xs) m = (None, mk)"
    and "step (xs ! k) mk = (Some e, m')"
  shows "run_steps step xs m = (Some e, m')"
  using assms
proof (induction xs arbitrary: m k)
  case Nil
  then show ?case by simp
next
  case (Cons x xs)
  show ?case
  proof (cases k)
    case 0
    with Cons.prems show ?thesis by simp
  next
    case (Suc k')
    obtain r1 m1 where s: "step x m = (r1, m1)" by (cases "step x m")
    with Cons.prems(2) Suc
    have r1: "r1 = None \<and> run_steps step (take k' xs) m1 = (None, mk)"
      by (cases r1) auto
    have "k' < length xs" "step (xs ! k') mk = (Some e, m')"
      using Cons.prems(1,3) Suc by simp_all
    with r1 have "run_steps step xs m1 = (Some e, m')"
      using Cons.IH [of k' m1] by simp
    with s r1 show ?thesis by simp
  qed
qed

lemma failed_run_invoked:
  assumes eff: "\<And>x m r m'. step x m = (r, m') \<Longrightarrow> invoked m' = invoked m @ [label x]"
    and k: "k < length xs"
    and pre: "run_steps step (take k xs) m = (None, mk)"
    and fail: "step (xs ! k) mk = (r, m')"
  shows "invoked m' = invoked m @ map label (take (Suc k) xs)"
proof -
  have "invoked mk = invoked m @ map label (take k xs)"
    using run_steps_success_appends [of "take k xs" step invoked label m mk] eff pre by blast
  moreover have "invoked m' = invoked mk @ [label (xs ! k)]" using eff [OF fail] .
  ultimately show ?thesis using k by (simp add: take_Suc_conv_app_nth)
qed

text \<open>The history after a run that fails at step \<open>k\<close>, when every step up to \<open>k\<close>
  started in a state where it is quiet: one item for each step before \<open>k\<close>.\<close>

lemma failed_run_history:
  assumes eff: "\<And>x m r m'. quiet x m \<Longrightarrow> step x m = (r, m') \<Longrightarrow>
        history m' = history m @ (if r = None then [item x] else [])"
    and k: "k < length xs"
    and pre: "run_steps step (take k xs) m = (None, mk)"
    and fail: "step (xs ! k) mk = (Some e, m')"
    and q: "\<forall>j. j \<le> k \<longrightarrow> quiet (xs ! j) (snd (run_steps step (take j xs) m))"
  shows "history m' = history m @ map item (take k xs)"
  using k pre fail q
proof (induction xs arbitrary: m k)
  case Nil
  then show ?case by simp
next
  case (Cons x xs)
  show ?case
  proof (cases k)
    case 0
    from Cons.prems(4) have "quiet ((x # xs) ! 0) (snd (run_steps step (take 0 (x # xs)) m))"
      by blast
    then have q0: "quiet x m" by simp
    from Cons.prems(2,3) 0 have "step x m = (Some e, m')" by simp
    from eff [OF q0 this] 0 show ?thesis by simp
  next
    case (Suc k')
    obtain r1 m1 where s: "step x m = (r1, m1)" by (cases "step x m")
    with Cons.prems(2) Suc
    have r1: "r1 = None \<and> run_steps step (take k' xs) m1 = (None, mk)"
      by (cases r1) auto
    from Cons.prems(4) have "quiet ((x # xs) ! 0) (snd (run_steps step (take 0 (x # xs)) m))"
      by blast
    then have q0: "quiet x m" by simp
    have h1: "history m1 = history m @ [item x]" using eff [OF q0 s] r1 by simp
    have q': "\<forall>j. j \<le> k' \<longrightarrow> quiet (xs ! j) (snd (run_steps step (take j xs) m1))"
    proof (intro allI impI)
      fix j
      assume "j \<le> k'"
      then have "Suc j \<le> k" using Suc by simp
      with Cons.prems(4)
      have "quiet ((x # xs) ! Suc j) (snd (run_steps step (take (Suc j) (x # xs)) m))"
        by blast
      then show "quiet (xs ! j) (snd (run_steps step (take j xs) m1))"
        using s r1 by simp
    qed
    have "k' < length xs" "step (xs ! k') mk = (Some e, m')"
      using Cons.prems(1,3) Suc by simp_all
    from Cons.IH [OF this(1) conjunct2 [OF r1] this(2) q'] h1 Suc show ?thesis by simp
  qed
qed

lemma Version_after_failed_run:
  assumes ver: "Migrate_Version m = ((v, d, None), m1)"
    and hist: "history m' = history m @ map item (take k xs)"
    and coll: "migrationsCollection m' = migrationsCollection m"
    and k: "k < length xs"
    and after: "Migrate_Version m' = ((v', d', None), m'')"
  shows "(v', d') = (if k = 0 then (v, d) else item (xs ! (k - 1)))"
proof -
  have before: "(v, d) = (if history m = [] then (0, '''') else last (history m))"
    using Version_result [OF ver] current_version_history [of m] by simp
  have now: "(v', d') = (if history m' = [] then (0, '''') else last (history m'))"
    using Version_result [OF after] current_version_history [of m'] by simp
  show ?thesis
  proof (cases k)
    case 0
    with hist before now show ?thesis by simp
  next
    case (Suc j)
    with k have "take k xs = take j xs @ [xs ! j]"
      by (simp add: take_Suc_conv_app_nth)
    with hist have h: "history m' = (history m @ map item (take j xs)) @ [item (xs ! j)]"
      by simp
    have "history m' \<noteq> []" "last (history m') = item (xs ! j)"
      unfolding h by simp_all
    with now Suc show ?thesis by simp
  qed
qed

subsection \<open>A registry to run\<close>

text \<open>
  The scenario of the spec's section 8: two migrations, registered out of order, each
  with both actions, on a database that is empty and answers every call. An action
  writes a document to a collection of its own.
\<close>

definition example_action :: "string \<Rightarrow> MigrationFunc" where
  "example_action name d =
     (None, d\<lparr>documents := (documents d)(name := documents d name @
                [\<lparr>version = 0, description = ''data'', timestamp = clock d\<rparr>]),
              clock := clock d + 1\<rparr>)"

definition failing_action :: "string \<Rightarrow> MigrationFunc" where
  "failing_action msg d = (Some (Failure msg), d\<lparr>clock := clock d + 1\<rparr>)"

definition fresh_database :: database where
  "fresh_database = \<lparr>listing = [], documents = (\<lambda>name. []), faults = [], clock = 0\<rparr>"

definition example_registry :: "Migration list" where
  "example_registry =
     [\<lparr>Version = 2, Description = ''two'', Up = Some (example_action ''b''),
        Down = Some (example_action ''b'')\<rparr>,
      \<lparr>Version = 1, Description = ''one'', Up = Some (example_action ''a''),
        Down = Some (example_action ''a'')\<rparr>]"

definition example_Migrate :: Migrate where
  "example_Migrate = NewMigrate fresh_database example_registry"

text \<open>The registry of the scenario on a database at version 2.\<close>

definition example_database_at_2 :: database where
  "example_database_at_2 =
     \<lparr>listing = [\<lparr>Name = ''migrations'', Type = ''collection''\<rparr>],
      documents = (\<lambda>name. if name = ''migrations''
         then [\<lparr>version = 1, description = ''one'', timestamp = 1\<rparr>,
               \<lparr>version = 2, description = ''two'', timestamp = 2\<rparr>]
         else []),
      faults = [], clock = 3\<rparr>"

definition example_Migrate_at_2 :: Migrate where
  "example_Migrate_at_2 = NewMigrate example_database_at_2 example_registry"

text \<open>The database of the scenario when its first driver call fails.\<close>

definition example_Migrate_unreachable :: Migrate where
  "example_Migrate_unreachable =
     NewMigrate (fresh_database\<lparr>faults := [Some ''unreachable'']\<rparr>) example_registry"

text \<open>A database that lists a view under the name of the history collection.\<close>

definition example_database_with_view :: database where
  "example_database_with_view =
     \<lparr>listing = [\<lparr>Name = ''migrations'', Type = ''view''\<rparr>,
                 \<lparr>Name = ''users'', Type = ''collection''\<rparr>],
      documents = (\<lambda>name. []), faults = [], clock = 0\<rparr>"

definition example_Migrate_with_view :: Migrate where
  "example_Migrate_with_view = NewMigrate example_database_with_view example_registry"

text \<open>A registry with gaps: migration 2 has no forward action, migration 3 no backward
  action.\<close>

definition example_registry_gaps :: "Migration list" where
  "example_registry_gaps =
     [\<lparr>Version = 1, Description = ''one'', Up = Some (example_action ''a''),
        Down = Some (example_action ''a'')\<rparr>,
      \<lparr>Version = 2, Description = ''two'', Up = None, Down = Some (example_action ''b'')\<rparr>,
      \<lparr>Version = 3, Description = ''three'', Up = Some (example_action ''c''), Down = None\<rparr>,
      \<lparr>Version = 4, Description = ''four'', Up = Some (example_action ''d''),
        Down = Some (example_action ''d'')\<rparr>]"

definition example_Migrate_gaps :: Migrate where
  "example_Migrate_gaps = NewMigrate fresh_database example_registry_gaps"

definition example_database_at_4 :: database where
  "example_database_at_4 =
     \<lparr>listing = [\<lparr>Name = ''migrations'', Type = ''collection''\<rparr>],
      documents = (\<lambda>name. if name = ''migrations''
         then [\<lparr>version = 4, description = ''four'', timestamp = 1\<rparr>] else []),
      faults = [], clock = 2\<rparr>"

definition example_Migrate_gaps_at_4 :: Migrate where
  "example_Migrate_gaps_at_4 = NewMigrate example_database_at_4 example_registry_gaps"

text \<open>A registry whose second migration fails going up, on an empty database.\<close>

definition example_registry_failing :: "Migration list" where
  "example_registry_failing =
     [\<lparr>Version = 1, Description = ''one'', Up = Some (example_action ''a''),
        Down = Some (example_action ''a'')\<rparr>,
      \<lparr>Version = 2, Description = ''two'', Up = Some (failing_action ''boom''),
        Down = Some (example_action ''b'')\<rparr>,
      \<lparr>Version = 3, Description = ''three'', Up = Some (example_action ''c''),
        Down = Some (example_action ''c'')\<rparr>]"

definition example_Migrate_failing :: Migrate where
  "example_Migrate_failing = NewMigrate fresh_database example_registry_failing"

text \<open>The scenario at version 2 with a driver whose ninth call fails: the second insert
  of a batch.\<close>

definition example_Migrate_at_2_disk_full :: Migrate where
  "example_Migrate_at_2_disk_full =
     NewMigrate (example_database_at_2\<lparr>faults := replicate 8 None @ [Some ''disk full'']\<rparr>)
       example_registry"

text \<open>A database whose history holds one record, and two registries with versions 10
  and 20: the second has a migration 15 in between, without actions.\<close>

definition example_database_at :: "uint64 \<Rightarrow> string \<Rightarrow> database" where
  "example_database_at v desc =
     \<lparr>listing = [\<lparr>Name = ''migrations'', Type = ''collection''\<rparr>],
      documents = (\<lambda>name. if name = ''migrations''
         then [\<lparr>version = v, description = desc, timestamp = 1\<rparr>] else []),
      faults = [], clock = 2\<rparr>"

definition example_registry_tens :: "Migration list" where
  "example_registry_tens =
     [\<lparr>Version = 10, Description = ''ten'', Up = Some (example_action ''a''),
        Down = Some (example_action ''a'')\<rparr>,
      \<lparr>Version = 20, Description = ''twenty'', Up = Some (example_action ''b''),
        Down = Some (example_action ''b'')\<rparr>]"

definition example_registry_tens_gap :: "Migration list" where
  "example_registry_tens_gap =
     [\<lparr>Version = 10, Description = ''ten'', Up = Some (example_action ''a''),
        Down = Some (example_action ''a'')\<rparr>,
      \<lparr>Version = 15, Description = ''fifteen'', Up = None, Down = None\<rparr>,
      \<lparr>Version = 20, Description = ''twenty'', Up = Some (example_action ''b''),
        Down = Some (example_action ''b'')\<rparr>]"

definition example_Migrate_at_15 :: Migrate where
  "example_Migrate_at_15 = NewMigrate (example_database_at 15 ''manual'') example_registry_tens"

definition example_Migrate_gap_at_10 :: Migrate where
  "example_Migrate_gap_at_10 = NewMigrate (example_database_at 10 ''ten'') example_registry_tens_gap"

text \<open>A registry whose last migration cannot be undone, on a database at version 1.\<close>

definition example_registry_three :: "Migration list" where
  "example_registry_three =
     [\<lparr>Version = 1, Description = ''one'', Up = Some (example_action ''a''),
        Down = Some (example_action ''a'')\<rparr>,
      \<lparr>Version = 2, Description = ''two'', Up = Some (example_action ''b''),
        Down = Some (example_action ''b'')\<rparr>,
      \<lparr>Version = 3, Description = ''three'', Up = Some (example_action ''c''), Down = None\<rparr>]"

definition example_Migrate_three_at_1 :: Migrate where
  "example_Migrate_three_at_1 = NewMigrate (example_database_at 1 ''one'') example_registry_three"

text \<open>A registry whose second migration, going up, writes a record of its own into the
  history collection and then fails.\<close>

definition rogue_action :: MigrationFunc where
  "rogue_action d =
     (Some (Failure ''boom''),
      d\<lparr>documents := (documents d)(''migrations'' := documents d ''migrations'' @
           [\<lparr>version = 99, description = ''rogue'', timestamp = clock d\<rparr>]),
        clock := clock d + 1\<rparr>)"

definition example_registry_rogue :: "Migration list" where
  "example_registry_rogue =
     [\<lparr>Version = 1, Description = ''one'', Up = Some (example_action ''a''),
        Down = Some (example_action ''a'')\<rparr>,
      \<lparr>Version = 2, Description = ''two'', Up = Some rogue_action,
        Down = Some (example_action ''b'')\<rparr>]"

definition example_Migrate_rogue :: Migrate where
  "example_Migrate_rogue = NewMigrate fresh_database example_registry_rogue"

section \<open>The claims\<close>

subsection \<open>C1: what Up applies\<close>

lemma up_step_appends:
  assumes "the (Up mg) (db m0) = (None, d')" and "up_step mg m0 = (None, m')"
  shows "documents (db m') =
           (documents d')(migrationsCollection m0 :=
              documents d' (migrationsCollection m0) @
                [\<lparr>version = Version mg, description = Description mg, timestamp = clock d'\<rparr>])"
proof -
  let ?m1 = "m0\<lparr>db := d', invoked := invoked m0 @ [mg]\<rparr>"
  obtain r2 m2 where sv: "Migrate_SetVersion ?m1 (Version mg) (Description mg) = (r2, m2)"
    by (cases "Migrate_SetVersion ?m1 (Version mg) (Description mg)")
  from assms sv have "r2 = None \<and> m' = Migrate_printUp m2 (Version mg) (Description mg)"
    by (cases r2) (auto simp: up_step_def)
  with SetVersion_result [OF sv] show ?thesis
    by (simp add: Migrate_printUp_def printf_frame)
qed

text \<open>
  C1. For every registry and every current version \<open>v\<close> that \<^verbatim>\<open>Version()\<close> returns,
  \<^verbatim>\<open>Up(n)\<close> invokes exactly the forward actions of the migrations whose version is
  strictly greater than \<open>v\<close> and whose forward action is not nil, in ascending version
  order, stopping when the clamped step count is reached or the registry is exhausted:
  the code's loop is the run of that plan. The sorted registry is ascending. A step whose
  action succeeded (leaving the database \<open>d'\<close>) and whose append succeeded has entered
  the migration in the journal and added exactly one record, with the migration's
  version and description, to the documents of the history collection in \<open>d'\<close>.
\<close>

theorem Up_applies_eligible_ascending:
  "Migrate_Up m n =
     (case Migrate_Version m of
        ((v, d, Some err), m1) \<Rightarrow> (Some err, m1)
      | ((v, d, None), m1) \<Rightarrow>
          run_steps up_step
            (take (step_budget n (length (migrations m)))
               (filter (\<lambda>mg. v < Version mg \<and> Up mg \<noteq> None)
                  (migrationSort (migrations m))))
            (m1\<lparr>migrations := migrationSort (migrations m)\<rparr>))
   \<and> sorted (map Version (migrationSort (migrations m)))
   \<and> (\<forall>mg m0 d' m'. the (Up mg) (db m0) = (None, d') \<and> up_step mg m0 = (None, m') \<longrightarrow>
         invoked m' = invoked m0 @ [mg] \<and>
         documents (db m') =
           (documents d')(migrationsCollection m0 :=
              documents d' (migrationsCollection m0) @
                [\<lparr>version = Version mg, description = Description mg, timestamp = clock d'\<rparr>]))"
proof (intro conjI allI impI)
  obtain v d r m1 where ver: "Migrate_Version m = ((v, d, r), m1)"
    by (metis prod.collapse)
  have plan: "up_plan v n (migrations m) =
      take (step_budget n (length (migrations m)))
        (filter (\<lambda>mg. v < Version mg \<and> Up mg \<noteq> None) (migrationSort (migrations m)))"
    by (simp add: up_plan_def up_eligible_def [abs_def])
  show "Migrate_Up m n =
     (case Migrate_Version m of
        ((v, d, Some err), m1) \<Rightarrow> (Some err, m1)
      | ((v, d, None), m1) \<Rightarrow>
          run_steps up_step
            (take (step_budget n (length (migrations m)))
               (filter (\<lambda>mg. v < Version mg \<and> Up mg \<noteq> None)
                  (migrationSort (migrations m))))
            (m1\<lparr>migrations := migrationSort (migrations m)\<rparr>))"
  proof (cases r)
    case None
    with ver Up_run [of m v d m1 n] plan show ?thesis by simp
  next
    case (Some e)
    with ver Up_Version_error [of m v d e m1 n] show ?thesis by simp
  qed
next
  show "sorted (map Version (migrationSort (migrations m)))"
    by (rule migrationSort_sorted)
next
  fix mg m0 d' m'
  assume a: "the (Up mg) (db m0) = (None, d') \<and> up_step mg m0 = (None, m')"
  then show "invoked m' = invoked m0 @ [mg]"
    by (auto simp: up_step_def Migrate_printUp_def printf_frame
        split: prod.splits option.splits dest!: SetVersion_frame)
  from a show "documents (db m') =
           (documents d')(migrationsCollection m0 :=
              documents d' (migrationsCollection m0) @
                [\<lparr>version = Version mg, description = Description mg, timestamp = clock d'\<rparr>])"
    using up_step_appends by blast
qed

theorem Up_applies_eligible_ascending_witness:
  "fst (Migrate_Up example_Migrate 1) = None
   \<and> map Version (invoked (snd (Migrate_Up example_Migrate 1))) = [1]
   \<and> map version (documents (db (snd (Migrate_Up example_Migrate 1))) ''migrations'') = [1]
   \<and> Migrate_Up example_Migrate 1 =
       run_steps up_step [example_registry ! 1]
         ((snd (Migrate_Version example_Migrate))
            \<lparr>migrations := [example_registry ! 1, example_registry ! 0]\<rparr>)
   \<and> sorted (map Version (migrationSort example_registry))
   \<and> fst (up_step (example_registry ! 1) example_Migrate) = None
   \<and> documents (db (snd (up_step (example_registry ! 1) example_Migrate))) ''migrations'' =
       [\<lparr>version = 1, description = ''one'', timestamp = 1\<rparr>]"
proof -
  note t = Up_applies_eligible_ascending [of example_Migrate 1]
  have v: "fst (Migrate_Version example_Migrate) = (0, '''', None)"
    by code_simp
  then obtain m1 where ver: "Migrate_Version example_Migrate = ((0, '''', None), m1)"
    by (cases "Migrate_Version example_Migrate") auto
  have ms: "migrations example_Migrate = example_registry"
    by (simp add: example_Migrate_def NewMigrate_def)
  have srt: "migrationSort example_registry = [example_registry ! 1, example_registry ! 0]"
    by (simp add: migrationSort_def example_registry_def word_le_nat_alt)
  have plan: "take (step_budget 1 (length example_registry))
      (filter (\<lambda>mg. 0 < Version mg \<and> Up mg \<noteq> None) (migrationSort example_registry)) =
      [example_registry ! 1]"
    unfolding srt by (simp add: step_budget_def example_registry_def)
  have "Migrate_Up example_Migrate 1 =
       run_steps up_step [example_registry ! 1]
         (m1\<lparr>migrations := [example_registry ! 1, example_registry ! 0]\<rparr>)"
    using conjunct1 [OF t] plan by (simp add: ver ms srt)
  then have run: "Migrate_Up example_Migrate 1 =
       run_steps up_step [example_registry ! 1]
         ((snd (Migrate_Version example_Migrate))
            \<lparr>migrations := [example_registry ! 1, example_registry ! 0]\<rparr>)"
    by (simp add: ver)
  have ascending: "sorted (map Version (migrationSort example_registry))"
    using conjunct1 [OF conjunct2 [OF t]] by (simp add: ms)
  let ?mg = "example_registry ! 1"
  let ?d' = "snd (the (Up ?mg) (db example_Migrate))"
  let ?m' = "snd (up_step ?mg example_Migrate)"
  have action: "the (Up ?mg) (db example_Migrate) = (None, ?d')"
    by (simp add: example_registry_def example_action_def)
  have ok: "fst (up_step ?mg example_Migrate) = None" by code_simp
  then have step: "up_step ?mg example_Migrate = (None, ?m')"
    by (cases "up_step ?mg example_Migrate") auto
  have d': "documents ?d' ''migrations'' = []" "clock ?d' = 1"
    "migrationsCollection example_Migrate = ''migrations''"
    "Version ?mg = 1" "Description ?mg = ''one''"
    by (simp_all add: example_registry_def example_action_def example_Migrate_def NewMigrate_def
        fresh_database_def defaultMigrationsCollection_def)
  from conjunct2 [OF conjunct2 [OF t], rule_format, of ?mg example_Migrate ?d' ?m'] action step
  have "documents (db ?m') =
      (documents ?d')(migrationsCollection example_Migrate :=
         documents ?d' (migrationsCollection example_Migrate) @
           [\<lparr>version = Version ?mg, description = Description ?mg, timestamp = clock ?d'\<rparr>])"
    by blast
  then have rec: "documents (db ?m') ''migrations'' =
      [\<lparr>version = 1, description = ''one'', timestamp = 1\<rparr>]"
    by (simp only: d' fun_upd_same append_Nil)
  have "fst (Migrate_Up example_Migrate 1) = None"
    by code_simp
  moreover have "map Version (invoked (snd (Migrate_Up example_Migrate 1))) = [1]"
    by code_simp
  moreover have "map version (documents (db (snd (Migrate_Up example_Migrate 1))) ''migrations'') = [1]"
    by code_simp
  ultimately show ?thesis using run ascending ok rec by blast
qed

subsection \<open>C2: what Down undoes\<close>

lemma down_step_appends:
  assumes "the (Down (fst s)) (db m0) = (None, d')" and "down_step s m0 = (None, m')"
  shows "documents (db m') =
           (documents d')(migrationsCollection m0 :=
              documents d' (migrationsCollection m0) @
                [\<lparr>version = Version (snd s), description = Description (snd s),
                  timestamp = clock d'\<rparr>])"
proof -
  let ?m1 = "m0\<lparr>db := d', invoked := invoked m0 @ [fst s]\<rparr>"
  obtain r2 m2 where
    sv: "Migrate_SetVersion ?m1 (Version (snd s)) (Description (snd s)) = (r2, m2)"
    by (cases "Migrate_SetVersion ?m1 (Version (snd s)) (Description (snd s))")
  from assms sv have
    "r2 = None \<and> m' = Migrate_printDown m2 (Version (fst s)) (Description (fst s))"
    by (cases r2) (auto simp: down_step_def)
  with SetVersion_result [OF sv] show ?thesis
    by (simp add: Migrate_printDown_def printf_frame)
qed

text \<open>
  C2. For every registry and every current version \<open>v\<close>, \<^verbatim>\<open>Down(n)\<close> scans the sorted
  registry descending and treats a migration as eligible iff its version is at most \<open>v\<close>
  and its backward action is not nil: the code's loop is the run of that plan, each
  migration paired with the one that precedes it in the sorted list, and the migration at
  index 0 with version 0 and the empty description. A step whose backward action and
  append succeeded has added exactly one record, with the version and description of the
  paired migration.
\<close>

theorem Down_undoes_eligible_descending:
  "Migrate_Down m n =
     (case Migrate_Version m of
        ((v, d, Some err), m1) \<Rightarrow> (Some err, m1)
      | ((v, d, None), m1) \<Rightarrow>
          run_steps down_step
            (take (step_budget n (length (migrations m)))
               (filter (\<lambda>s. Version (fst s) \<le> v \<and> Down (fst s) \<noteq> None)
                  (rev (with_previous (migrationSort (migrations m))))))
            (m1\<lparr>migrations := migrationSort (migrations m)\<rparr>))
   \<and> (\<forall>ms i. i < length ms \<longrightarrow>
         with_previous ms ! i =
           (ms ! i, if i = 0 then \<lparr>Version = 0, Description = '''', Up = None, Down = None\<rparr>
                    else ms ! (i - 1)))
   \<and> (\<forall>s m0 d' m'. the (Down (fst s)) (db m0) = (None, d') \<and> down_step s m0 = (None, m') \<longrightarrow>
         invoked m' = invoked m0 @ [fst s] \<and>
         documents (db m') =
           (documents d')(migrationsCollection m0 :=
              documents d' (migrationsCollection m0) @
                [\<lparr>version = Version (snd s), description = Description (snd s),
                  timestamp = clock d'\<rparr>]))"
proof (intro conjI allI impI)
  obtain v d r m1 where ver: "Migrate_Version m = ((v, d, r), m1)"
    by (metis prod.collapse)
  have plan: "down_plan v n (migrations m) =
      take (step_budget n (length (migrations m)))
        (filter (\<lambda>s. Version (fst s) \<le> v \<and> Down (fst s) \<noteq> None)
           (rev (with_previous (migrationSort (migrations m)))))"
    by (simp add: down_plan_def down_eligible_def)
  show "Migrate_Down m n =
     (case Migrate_Version m of
        ((v, d, Some err), m1) \<Rightarrow> (Some err, m1)
      | ((v, d, None), m1) \<Rightarrow>
          run_steps down_step
            (take (step_budget n (length (migrations m)))
               (filter (\<lambda>s. Version (fst s) \<le> v \<and> Down (fst s) \<noteq> None)
                  (rev (with_previous (migrationSort (migrations m))))))
            (m1\<lparr>migrations := migrationSort (migrations m)\<rparr>))"
  proof (cases r)
    case None
    with ver Down_run [of m v d m1 n] plan show ?thesis by simp
  next
    case (Some e)
    with ver Down_Version_error [of m v d e m1 n] show ?thesis by simp
  qed
next
  fix ms :: "Migration list" and i
  assume "i < length ms"
  then show "with_previous ms ! i =
           (ms ! i, if i = 0 then \<lparr>Version = 0, Description = '''', Up = None, Down = None\<rparr>
                    else ms ! (i - 1))"
    by (rule with_previous_nth)
next
  fix s m0 d' m'
  assume a: "the (Down (fst s)) (db m0) = (None, d') \<and> down_step s m0 = (None, m')"
  then show "invoked m' = invoked m0 @ [fst s]"
    by (auto simp: down_step_def Migrate_printDown_def printf_frame
        split: prod.splits option.splits dest!: SetVersion_frame)
  from a show "documents (db m') =
           (documents d')(migrationsCollection m0 :=
              documents d' (migrationsCollection m0) @
                [\<lparr>version = Version (snd s), description = Description (snd s),
                  timestamp = clock d'\<rparr>])"
    using down_step_appends by blast
qed

theorem Down_undoes_eligible_descending_witness:
  "fst (Migrate_Version example_Migrate_at_2) = (2, ''two'', None)
   \<and> fst (Migrate_Down example_Migrate_at_2 AllAvailable) = None
   \<and> map Version (invoked (snd (Migrate_Down example_Migrate_at_2 AllAvailable))) = [2, 1]
   \<and> map (\<lambda>r. (version r, description r))
        (documents (db (snd (Migrate_Down example_Migrate_at_2 AllAvailable))) ''migrations'')
       = [(1, ''one''), (2, ''two''), (1, ''one''), (0, '''')]
   \<and> Migrate_Down example_Migrate_at_2 AllAvailable =
       run_steps down_step
         [(example_registry ! 0, example_registry ! 1),
          (example_registry ! 1, \<lparr>Version = 0, Description = '''', Up = None, Down = None\<rparr>)]
         ((snd (Migrate_Version example_Migrate_at_2))
            \<lparr>migrations := [example_registry ! 1, example_registry ! 0]\<rparr>)
   \<and> with_previous [example_registry ! 1, example_registry ! 0] ! 1 =
       (example_registry ! 0, example_registry ! 1)
   \<and> fst (down_step (example_registry ! 0, example_registry ! 1) example_Migrate_at_2) = None
   \<and> map (\<lambda>r. (version r, description r))
        (documents (db (snd (down_step (example_registry ! 0, example_registry ! 1)
                               example_Migrate_at_2))) ''migrations'')
       = [(1, ''one''), (2, ''two''), (1, ''one'')]"
proof -
  note t = Down_undoes_eligible_descending [of example_Migrate_at_2 AllAvailable]
  have v: "fst (Migrate_Version example_Migrate_at_2) = (2, ''two'', None)"
    by code_simp
  then obtain m1 where ver: "Migrate_Version example_Migrate_at_2 = ((2, ''two'', None), m1)"
    by (cases "Migrate_Version example_Migrate_at_2") auto
  have ms: "migrations example_Migrate_at_2 = example_registry"
    by (simp add: example_Migrate_at_2_def NewMigrate_def)
  have srt: "migrationSort example_registry = [example_registry ! 1, example_registry ! 0]"
    by (simp add: migrationSort_def example_registry_def word_le_nat_alt)
  have plan: "take (step_budget AllAvailable (length example_registry))
      (filter (\<lambda>s. Version (fst s) \<le> 2 \<and> Down (fst s) \<noteq> None)
         (rev (with_previous (migrationSort example_registry)))) =
      [(example_registry ! 0, example_registry ! 1),
       (example_registry ! 1, \<lparr>Version = 0, Description = '''', Up = None, Down = None\<rparr>)]"
    unfolding srt
    by (simp add: step_budget_def AllAvailable_def with_previous_def example_registry_def
        word_le_nat_alt)
  have "Migrate_Down example_Migrate_at_2 AllAvailable =
       run_steps down_step
         [(example_registry ! 0, example_registry ! 1),
          (example_registry ! 1, \<lparr>Version = 0, Description = '''', Up = None, Down = None\<rparr>)]
         (m1\<lparr>migrations := [example_registry ! 1, example_registry ! 0]\<rparr>)"
    using conjunct1 [OF t] plan by (simp add: ver ms srt)
  then have run: "Migrate_Down example_Migrate_at_2 AllAvailable =
       run_steps down_step
         [(example_registry ! 0, example_registry ! 1),
          (example_registry ! 1, \<lparr>Version = 0, Description = '''', Up = None, Down = None\<rparr>)]
         ((snd (Migrate_Version example_Migrate_at_2))
            \<lparr>migrations := [example_registry ! 1, example_registry ! 0]\<rparr>)"
    by (simp add: ver)
  have prev: "with_previous [example_registry ! 1, example_registry ! 0] ! 1 =
       (example_registry ! 0, example_registry ! 1)"
    using conjunct1 [OF conjunct2 [OF t], rule_format,
        of 1 "[example_registry ! 1, example_registry ! 0]"]
    by simp
  let ?s = "(example_registry ! 0, example_registry ! 1)"
  let ?d' = "snd (the (Down (fst ?s)) (db example_Migrate_at_2))"
  let ?m' = "snd (down_step ?s example_Migrate_at_2)"
  have action: "the (Down (fst ?s)) (db example_Migrate_at_2) = (None, ?d')"
    by (simp add: example_registry_def example_action_def)
  have ok: "fst (down_step ?s example_Migrate_at_2) = None" by code_simp
  then have step: "down_step ?s example_Migrate_at_2 = (None, ?m')"
    by (cases "down_step ?s example_Migrate_at_2") auto
  have d': "documents ?d' ''migrations'' =
      [\<lparr>version = 1, description = ''one'', timestamp = 1\<rparr>,
       \<lparr>version = 2, description = ''two'', timestamp = 2\<rparr>]"
    "migrationsCollection example_Migrate_at_2 = ''migrations''"
    "Version (snd ?s) = 1" "Description (snd ?s) = ''one''"
    by (simp_all add: example_registry_def example_action_def example_Migrate_at_2_def
        NewMigrate_def example_database_at_2_def defaultMigrationsCollection_def)
  from conjunct2 [OF conjunct2 [OF t], rule_format, of ?s example_Migrate_at_2 ?d' ?m'] action step
  have "documents (db ?m') =
      (documents ?d')(migrationsCollection example_Migrate_at_2 :=
         documents ?d' (migrationsCollection example_Migrate_at_2) @
           [\<lparr>version = Version (snd ?s), description = Description (snd ?s),
             timestamp = clock ?d'\<rparr>])"
    by blast
  then have "documents (db ?m') ''migrations'' =
      [\<lparr>version = 1, description = ''one'', timestamp = 1\<rparr>,
       \<lparr>version = 2, description = ''two'', timestamp = 2\<rparr>,
       \<lparr>version = 1, description = ''one'', timestamp = clock ?d'\<rparr>]"
    by (simp only: d' fun_upd_same append_Cons append_Nil)
  then have rec: "map (\<lambda>r. (version r, description r)) (documents (db ?m') ''migrations'')
       = [(1, ''one''), (2, ''two''), (1, ''one'')]"
    by simp
  have "fst (Migrate_Down example_Migrate_at_2 AllAvailable) = None"
    by code_simp
  moreover have
    "map Version (invoked (snd (Migrate_Down example_Migrate_at_2 AllAvailable))) = [2, 1]"
    by code_simp
  moreover have "map (\<lambda>r. (version r, description r))
        (documents (db (snd (Migrate_Down example_Migrate_at_2 AllAvailable))) ''migrations'')
       = [(1, ''one''), (2, ''two''), (1, ''one''), (0, '''')]"
    by code_simp
  ultimately show ?thesis using v run prev ok rec by blast
qed

subsection \<open>C5: the version of an empty history\<close>

lemma driver_failure_not_ErrNoDocuments: "driver_failure fs e \<Longrightarrow> \<not> errors_Is e ErrNoDocuments"
  by (auto simp: driver_failure_iff)

text \<open>
  C5. For every history collection that holds no record, \<^verbatim>\<open>Version()\<close> returns version
  0 and the empty description, and no error when no driver call fails. The absence of a
  record is never returned as a failure: an error that \<^verbatim>\<open>Version()\<close> returns on an
  empty history is the failure of a driver call, and is not \<^verbatim>\<open>ErrNoDocuments\<close>.
\<close>

theorem Version_of_empty_history:
  assumes "documents (db m) (migrationsCollection m) = []"
  shows "fst (fst (Migrate_Version m)) = 0
       \<and> fst (snd (fst (Migrate_Version m))) = ''''
       \<and> (faults (db m) = [] \<longrightarrow> snd (snd (fst (Migrate_Version m))) = None)
       \<and> (\<forall>e. snd (snd (fst (Migrate_Version m))) = Some e \<longrightarrow>
             driver_failure (faults (db m)) e \<and> \<not> errors_Is e ErrNoDocuments)"
proof -
  obtain v d r m' where ver: "Migrate_Version m = ((v, d, r), m')"
    by (metis prod.collapse)
  note res = Version_result [OF ver]
  have vd: "(v, d) = (0, '''')"
    using res assms by (cases r) (auto simp: current_version_def)
  have healthy: "faults (db m) = [] \<longrightarrow> r = None"
    using res by (cases r) (auto simp: driver_failure_iff)
  have err: "\<forall>e. r = Some e \<longrightarrow> driver_failure (faults (db m)) e \<and> \<not> errors_Is e ErrNoDocuments"
    using res driver_failure_not_ErrNoDocuments by blast
  show ?thesis using ver vd healthy err by simp
qed

theorem Version_of_empty_history_witness:
  "documents (db example_Migrate) (migrationsCollection example_Migrate) = []
   \<and> faults (db example_Migrate) = []
   \<and> fst (Migrate_Version example_Migrate) = (0, '''', None)
   \<and> documents (db example_Migrate_unreachable)
        (migrationsCollection example_Migrate_unreachable) = []
   \<and> fst (Migrate_Version example_Migrate_unreachable) = (0, '''', Some (Failure ''unreachable''))
   \<and> driver_failure (faults (db example_Migrate_unreachable)) (Failure ''unreachable'')"
proof -
  have e: "documents (db example_Migrate) (migrationsCollection example_Migrate) = []"
    and h: "faults (db example_Migrate) = []"
    by (simp_all add: example_Migrate_def NewMigrate_def fresh_database_def)
  have e': "documents (db example_Migrate_unreachable)
        (migrationsCollection example_Migrate_unreachable) = []"
    by (simp add: example_Migrate_unreachable_def NewMigrate_def fresh_database_def)
  have r: "fst (Migrate_Version example_Migrate_unreachable) =
      (0, '''', Some (Failure ''unreachable''))"
    by code_simp
  from Version_of_empty_history [OF e] h
  have "fst (Migrate_Version example_Migrate) = (0, '''', None)"
    by (metis prod.collapse)
  moreover from Version_of_empty_history [OF e'] r
  have "driver_failure (faults (db example_Migrate_unreachable)) (Failure ''unreachable'')"
    by simp
  ultimately show ?thesis using e h e' r by simp
qed

subsection \<open>C7: the step count is clamped\<close>

text \<open>
  C7. For every registry and every integer \<open>n\<close>, \<^verbatim>\<open>Up(n)\<close> with \<open>n <= 0\<close> (the
  sentinel \<open>AllAvailable = -1\<close> included) and \<^verbatim>\<open>Up(n)\<close> with \<open>n\<close> greater than the
  size of the registry behave as \<^verbatim>\<open>Up(len(migrations))\<close>: same result, same final
  state. The same holds for \<^verbatim>\<open>Down\<close>.
\<close>

theorem Up_Down_step_count_clamped:
  assumes "n \<le> 0 \<or> int (length (migrations m)) < n"
  shows "Migrate_Up m n = Migrate_Up m (int (length (migrations m)))
       \<and> Migrate_Down m n = Migrate_Down m (int (length (migrations m)))"
proof -
  obtain v d r m1 where ver: "Migrate_Version m = ((v, d, r), m1)"
    by (metis prod.collapse)
  have b: "step_budget n (length (migrations m)) =
           step_budget (int (length (migrations m))) (length (migrations m))"
    using assms by (auto simp: step_budget_def)
  show ?thesis
  proof (cases r)
    case None
    with ver b show ?thesis
      by (simp add: Up_run [of m v d m1] Down_run [of m v d m1] up_plan_def down_plan_def)
  next
    case (Some e)
    with ver show ?thesis
      by (simp add: Up_Version_error [of m v d e m1] Down_Version_error [of m v d e m1])
  qed
qed

theorem Up_Down_step_count_clamped_witness:
  "Migrate_Up example_Migrate AllAvailable = Migrate_Up example_Migrate 2
   \<and> Migrate_Up example_Migrate 0 = Migrate_Up example_Migrate 2
   \<and> Migrate_Up example_Migrate 7 = Migrate_Up example_Migrate 2
   \<and> Migrate_Down example_Migrate_at_2 AllAvailable = Migrate_Down example_Migrate_at_2 2
   \<and> Migrate_Down example_Migrate_at_2 3 = Migrate_Down example_Migrate_at_2 2
   \<and> map Version (invoked (snd (Migrate_Up example_Migrate 7))) = [1, 2]"
proof -
  have l: "int (length (migrations example_Migrate)) = 2"
    "int (length (migrations example_Migrate_at_2)) = 2"
    by (simp_all add: example_Migrate_def example_Migrate_at_2_def NewMigrate_def
        example_registry_def)
  have "map Version (invoked (snd (Migrate_Up example_Migrate 7))) = [1, 2]"
    by code_simp
  then show ?thesis
    using Up_Down_step_count_clamped [of AllAvailable example_Migrate]
      Up_Down_step_count_clamped [of 0 example_Migrate]
      Up_Down_step_count_clamped [of 7 example_Migrate]
      Up_Down_step_count_clamped [of AllAvailable example_Migrate_at_2]
      Up_Down_step_count_clamped [of 3 example_Migrate_at_2]
    by (simp add: l AllAvailable_def)
qed

subsection \<open>C9: SetVersion\<close>

text \<open>
  C9, as stated, fails: not every version number can be recorded. The record goes through
  the driver's BSON encoder, which refuses a \<^verbatim>\<open>uint64\<close> above \<^verbatim>\<open>math.MaxInt64\<close>. On
  the empty database that answers every call, \<^verbatim>\<open>SetVersion(1<<63, "big")\<close> returns the
  encoder's error, appends nothing, and \<^verbatim>\<open>Version()\<close> still returns \<open>(0, "")\<close>.
\<close>

theorem SetVersion_appends_one_record_counterexample:
  "faults (db example_Migrate) = []
   \<and> documents (db example_Migrate) ''migrations'' = []
   \<and> fst (Migrate_SetVersion example_Migrate 9223372036854775808 ''big'') =
       Some (Failure ''overflows int64'')
   \<and> documents (db (snd (Migrate_SetVersion example_Migrate 9223372036854775808 ''big'')))
        ''migrations'' = []
   \<and> fst (Migrate_Version (snd (Migrate_SetVersion example_Migrate 9223372036854775808 ''big'')))
       = (0, '''', None)"
proof (intro conjI)
  show "faults (db example_Migrate) = []"
    and "documents (db example_Migrate) ''migrations'' = []"
    by (simp_all add: example_Migrate_def NewMigrate_def fresh_database_def)
qed code_simp+

text \<open>
  C9, amended. For every version number up to \<^verbatim>\<open>math.MaxInt64\<close> (\<open>2^63 - 1\<close>) and every
  description, \<^verbatim>\<open>SetVersion(version, description)\<close> appends exactly one record with that
  version, that description and the reading of the clock to the history collection,
  whenever the insert succeeds, as it does when no driver call fails; a failed insert
  leaves every document as it was, and for a larger version the insert always fails. The
  registry is not consulted (with any other registry the call does the same) and no action
  is invoked (the journal is unchanged). Afterwards, on a history that was empty,
  \<^verbatim>\<open>Version()\<close> returns that version and description with no error.
\<close>

theorem SetVersion_appends_one_record:
  assumes "Migrate_SetVersion m v d = (r, m')"
  shows "(r = None \<longrightarrow>
            documents (db m') =
              (documents (db m))(migrationsCollection m :=
                 documents (db m) (migrationsCollection m) @
                   [\<lparr>version = v, description = d, timestamp = clock (db m)\<rparr>]))
       \<and> (r \<noteq> None \<longrightarrow> documents (db m') = documents (db m))
       \<and> (faults (db m) = [] \<and> v \<le> MaxInt64 \<longrightarrow> r = None)
       \<and> (MaxInt64 < v \<longrightarrow> r = Some (Failure ''overflows int64''))
       \<and> invoked m' = invoked m \<and> migrations m' = migrations m
       \<and> (\<forall>ms. Migrate_SetVersion (m\<lparr>migrations := ms\<rparr>) v d = (r, m'\<lparr>migrations := ms\<rparr>))
       \<and> (faults (db m) = [] \<and> v \<le> MaxInt64 \<and> documents (db m) (migrationsCollection m) = [] \<longrightarrow>
            fst (Migrate_Version m') = (v, d, None))"
proof -
  let ?rec = "\<lparr>version = v, description = d, timestamp = clock (db m)\<rparr>"
  let ?coll = "migrationsCollection m"
  note res = SetVersion_result [OF assms]
  have docs: "r = None \<longrightarrow> documents (db m') =
      (documents (db m))(?coll := documents (db m) ?coll @ [?rec])"
    and keep: "r \<noteq> None \<longrightarrow> documents (db m') = documents (db m)"
    using res by simp_all
  have healthy: "faults (db m) = [] \<and> v \<le> MaxInt64 \<longrightarrow> r = None"
  proof
    assume a: "faults (db m) = [] \<and> v \<le> MaxInt64"
    then have "\<not> MaxInt64 < v" by (simp add: not_less)
    with a assms show "r = None"
      by (simp add: Migrate_SetVersion_def InsertOne_def Let_def driver_call_healthy)
  qed
  have refused: "MaxInt64 < v \<longrightarrow> r = Some (Failure ''overflows int64'')"
    using assms by (auto simp: Migrate_SetVersion_def InsertOne_def Let_def)
  have frame: "invoked m' = invoked m \<and> migrations m' = migrations m"
    using SetVersion_frame [OF assms] by simp
  have reg: "\<forall>ms. Migrate_SetVersion (m\<lparr>migrations := ms\<rparr>) v d = (r, m'\<lparr>migrations := ms\<rparr>)"
    using assms
    by (auto simp: Migrate_SetVersion_def Let_def split: prod.splits option.splits)
  have after: "faults (db m) = [] \<and> v \<le> MaxInt64 \<and> documents (db m) ?coll = [] \<longrightarrow>
      fst (Migrate_Version m') = (v, d, None)"
  proof
    assume a: "faults (db m) = [] \<and> v \<le> MaxInt64 \<and> documents (db m) ?coll = []"
    with healthy have "r = None" by simp
    with res a SetVersion_frame [OF assms] have "faults (db m') = []"
      "migrationsCollection m' = ?coll" "documents (db m') ?coll = [?rec]"
      by simp_all
    with Version_healthy [of m'] show "fst (Migrate_Version m') = (v, d, None)"
      by (simp add: current_version_def)
  qed
  from docs keep healthy refused frame reg after show ?thesis by blast
qed

theorem SetVersion_appends_one_record_witness:
  "fst (Migrate_SetVersion example_Migrate 5 ''manual'') = None
   \<and> documents (db (snd (Migrate_SetVersion example_Migrate 5 ''manual''))) ''migrations'' =
       [\<lparr>version = 5, description = ''manual'', timestamp = 0\<rparr>]
   \<and> invoked (snd (Migrate_SetVersion example_Migrate 5 ''manual'')) = []
   \<and> fst (Migrate_Version (snd (Migrate_SetVersion example_Migrate 5 ''manual''))) =
       (5, ''manual'', None)
   \<and> fst (Migrate_SetVersion example_Migrate MaxInt64 ''last'') = None
   \<and> fst (Migrate_SetVersion example_Migrate (MaxInt64 + 1) ''big'') =
       Some (Failure ''overflows int64'')"
proof -
  obtain r m' where s: "Migrate_SetVersion example_Migrate 5 ''manual'' = (r, m')"
    by (cases "Migrate_SetVersion example_Migrate 5 ''manual''")
  obtain r1 m1 where s1: "Migrate_SetVersion example_Migrate MaxInt64 ''last'' = (r1, m1)"
    by (cases "Migrate_SetVersion example_Migrate MaxInt64 ''last''")
  obtain r2 m2 where s2: "Migrate_SetVersion example_Migrate (MaxInt64 + 1) ''big'' = (r2, m2)"
    by (cases "Migrate_SetVersion example_Migrate (MaxInt64 + 1) ''big''")
  have h: "faults (db example_Migrate) = []"
    "documents (db example_Migrate) (migrationsCollection example_Migrate) = []"
    "migrationsCollection example_Migrate = ''migrations''"
    "clock (db example_Migrate) = 0" "invoked example_Migrate = []"
    "documents (db example_Migrate) = (\<lambda>name. [])"
    by (simp_all add: example_Migrate_def NewMigrate_def fresh_database_def
        defaultMigrationsCollection_def)
  have b: "(5::uint64) \<le> MaxInt64" "MaxInt64 < MaxInt64 + 1"
    by (simp_all add: MaxInt64_def)
  from SetVersion_appends_one_record [OF s] h b
  have "r = None" "documents (db m') ''migrations'' =
       [\<lparr>version = 5, description = ''manual'', timestamp = 0\<rparr>]"
    "invoked m' = []" "fst (Migrate_Version m') = (5, ''manual'', None)"
    by simp_all
  moreover from SetVersion_appends_one_record [OF s1] h have "r1 = None" by simp
  moreover from SetVersion_appends_one_record [OF s2] b
  have "r2 = Some (Failure ''overflows int64'')" by simp
  ultimately show ?thesis using s s1 s2 by simp
qed

subsection \<open>C10: only collections count as existing\<close>

lemma isCollectionExist_result:
  assumes "Migrate_getCollections m = ((cs, None), m1)"
  shows "Migrate_isCollectionExist m name =
           ((\<exists>c\<in>set (listing (db m)). name = Name c \<and> (Type c = '''' \<or> Type c = ''collection''),
             None), m1)"
  using assms getCollections_result [OF assms]
  by (auto simp: Migrate_isCollectionExist_def list_ex_iff)

text \<open>
  C10. When the enumeration of the containers succeeds, the entries kept are those whose
  type is empty or exactly \<open>collection\<close>, and \<^verbatim>\<open>isCollectionExist\<close> reports whether one
  of them has the name. Consequently, if every entry of that name is of another type (a
  view), \<^verbatim>\<open>isCollectionExist\<close> reports it absent, and \<^verbatim>\<open>createCollectionIfNotExist\<close>
  issues the create command for the name; for the configured history collection,
  \<^verbatim>\<open>Version()\<close> returns the error of that command if it fails and otherwise leaves a
  new collection of that name in the listing.
\<close>

theorem only_collections_are_counted:
  assumes "Migrate_getCollections m = ((cs, None), m1)"
  shows "cs = filter (\<lambda>c. Type c = '''' \<or> Type c = ''collection'') (listing (db m))
       \<and> Migrate_isCollectionExist m name =
           ((\<exists>c\<in>set (listing (db m)). name = Name c \<and> (Type c = '''' \<or> Type c = ''collection''),
             None), m1)
       \<and> ((\<forall>c\<in>set (listing (db m)). name = Name c \<longrightarrow> Type c \<noteq> '''' \<and> Type c \<noteq> ''collection'') \<longrightarrow>
            Migrate_isCollectionExist m name = ((False, None), m1) \<and>
            Migrate_createCollectionIfNotExist m name =
              (case RunCommand_create name (db m1) of (r, d') \<Rightarrow> (r, m1\<lparr>db := d'\<rparr>)) \<and>
            (name = migrationsCollection m \<longrightarrow>
               (\<forall>e d'. RunCommand_create name (db m1) = (Some e, d') \<longrightarrow>
                  Migrate_Version m = ((0, '''', Some e), m1\<lparr>db := d'\<rparr>)) \<and>
               (\<forall>d'. RunCommand_create name (db m1) = (None, d') \<longrightarrow>
                  listing (db (snd (Migrate_Version m))) =
                    listing (db m) @ [\<lparr>Name = name, Type = ''collection''\<rparr>])))"
proof (intro conjI impI allI)
  show "cs = filter (\<lambda>c. Type c = '''' \<or> Type c = ''collection'') (listing (db m))"
    by (rule getCollections_result [OF assms])
  show ex: "Migrate_isCollectionExist m name =
           ((\<exists>c\<in>set (listing (db m)). name = Name c \<and> (Type c = '''' \<or> Type c = ''collection''),
             None), m1)"
    by (rule isCollectionExist_result [OF assms])
  assume none: "\<forall>c\<in>set (listing (db m)). name = Name c \<longrightarrow> Type c \<noteq> '''' \<and> Type c \<noteq> ''collection''"
  then show absent: "Migrate_isCollectionExist m name = ((False, None), m1)"
    using ex by auto
  show create: "Migrate_createCollectionIfNotExist m name =
      (case RunCommand_create name (db m1) of (r, d') \<Rightarrow> (r, m1\<lparr>db := d'\<rparr>))"
    using absent
    by (auto simp: Migrate_createCollectionIfNotExist_def split: prod.splits option.splits)
  assume name: "name = migrationsCollection m"
  {
    fix e d'
    assume "RunCommand_create name (db m1) = (Some e, d')"
    then show "Migrate_Version m = ((0, '''', Some e), m1\<lparr>db := d'\<rparr>)"
      using create name by (simp add: Migrate_Version_def)
  }
  {
    fix d'
    assume rc: "RunCommand_create name (db m1) = (None, d')"
    have l1: "listing (db m1) = listing (db m)"
      using getCollections_frame [OF assms] by simp
    from rc have l2: "listing d' = listing (db m1) @ [\<lparr>Name = name, Type = ''collection''\<rparr>]"
      by (auto simp: RunCommand_create_def split: prod.splits option.splits
          dest!: driver_call_frame)
    have "listing (db (snd (Migrate_Version m))) = listing d'"
      using create name rc
      by (auto simp: Migrate_Version_def FindOne_def split: prod.splits option.splits sum.splits
          dest!: driver_call_frame)
    with l1 l2 show "listing (db (snd (Migrate_Version m))) =
        listing (db m) @ [\<lparr>Name = name, Type = ''collection''\<rparr>]"
      by simp
  }
qed

theorem only_collections_are_counted_witness:
  "fst (Migrate_getCollections example_Migrate_with_view) =
     ([\<lparr>Name = ''users'', Type = ''collection''\<rparr>], None)
   \<and> fst (Migrate_isCollectionExist example_Migrate_with_view ''migrations'') = (False, None)
   \<and> fst (Migrate_isCollectionExist example_Migrate_with_view ''users'') = (True, None)
   \<and> Migrate_createCollectionIfNotExist example_Migrate_with_view ''migrations'' =
       (case RunCommand_create ''migrations'' (db example_Migrate_with_view) of
          (r, d') \<Rightarrow> (r, example_Migrate_with_view\<lparr>db := d'\<rparr>))
   \<and> listing (db (snd (Migrate_Version example_Migrate_with_view))) =
       [\<lparr>Name = ''migrations'', Type = ''view''\<rparr>, \<lparr>Name = ''users'', Type = ''collection''\<rparr>,
        \<lparr>Name = ''migrations'', Type = ''collection''\<rparr>]"
proof -
  let ?m = example_Migrate_with_view
  have h: "faults (db ?m) = []"
    and l: "listing (db ?m) = [\<lparr>Name = ''migrations'', Type = ''view''\<rparr>,
                 \<lparr>Name = ''users'', Type = ''collection''\<rparr>]"
    and c: "migrationsCollection ?m = ''migrations''"
    by (simp_all add: example_Migrate_with_view_def example_database_with_view_def NewMigrate_def
        defaultMigrationsCollection_def)
  have g: "Migrate_getCollections ?m = (([\<lparr>Name = ''users'', Type = ''collection''\<rparr>], None), ?m)"
    using getCollections_healthy [OF h] l by simp
  have rc: "RunCommand_create ''migrations'' (db ?m) =
      (None, (db ?m)\<lparr>listing := listing (db ?m) @ [\<lparr>Name = ''migrations'', Type = ''collection''\<rparr>]\<rparr>)"
    using h by (simp add: RunCommand_create_def driver_call_healthy)
  note t1 = only_collections_are_counted [OF g, of "''migrations''"]
    and t2 = only_collections_are_counted [OF g, of "''users''"]
  have "fst (Migrate_isCollectionExist ?m ''migrations'') = (False, None)"
    using t1 l by simp
  moreover have "fst (Migrate_isCollectionExist ?m ''users'') = (True, None)"
    using t2 l by simp
  moreover have "Migrate_createCollectionIfNotExist ?m ''migrations'' =
       (case RunCommand_create ''migrations'' (db ?m) of (r, d') \<Rightarrow> (r, ?m\<lparr>db := d'\<rparr>))"
    using t1 l by simp
  moreover have "listing (db (snd (Migrate_Version ?m))) =
       [\<lparr>Name = ''migrations'', Type = ''view''\<rparr>, \<lparr>Name = ''users'', Type = ''collection''\<rparr>,
        \<lparr>Name = ''migrations'', Type = ''collection''\<rparr>]"
    using t1 l c rc by simp
  ultimately show ?thesis using g by simp
qed

subsection \<open>C8: Up with nothing to apply\<close>

lemma up_plan_without_eligible:
  assumes "\<forall>mg\<in>set ms. Version mg \<le> v \<or> Up mg = None"
  shows "up_plan v n ms = []"
proof -
  have "filter (up_eligible v) (migrationSort ms) = []"
    using assms by (auto simp: filter_empty_conv up_eligible_def migrationSort_set)
  then show ?thesis by (simp add: up_plan_def)
qed

text \<open>
  C8. In every state in which no migration is eligible (\<^verbatim>\<open>Version()\<close> returns \<open>v\<close>
  and every migration of the registry has a version at most \<open>v\<close> or no forward action),
  \<^verbatim>\<open>Up(n)\<close> invokes no action, appends no record and returns success: its final state
  is the one \<^verbatim>\<open>Version()\<close> left, with the registry sorted. Repeating the call, with any
  step count, leaves the journal and every document as they were; it can only fail with a
  failure of the driver.
\<close>

theorem Up_without_eligible_is_idle:
  assumes "Migrate_Version m = ((v, d, None), m1)"
    and "\<forall>mg\<in>set (migrations m). Version mg \<le> v \<or> Up mg = None"
  shows "Migrate_Up m n = (None, m1\<lparr>migrations := migrationSort (migrations m)\<rparr>)
       \<and> invoked (snd (Migrate_Up m n)) = invoked m
       \<and> documents (db (snd (Migrate_Up m n))) = documents (db m)
       \<and> invoked (snd (Migrate_Up (snd (Migrate_Up m n)) n')) = invoked m
       \<and> documents (db (snd (Migrate_Up (snd (Migrate_Up m n)) n'))) = documents (db m)
       \<and> (\<forall>e. fst (Migrate_Up (snd (Migrate_Up m n)) n') = Some e \<longrightarrow>
             driver_failure (faults (db m)) e)"
proof -
  let ?S = "migrationSort (migrations m)"
  let ?m' = "m1\<lparr>migrations := ?S\<rparr>"
  note f1 = Version_frame [OF assms(1)] and r1 = Version_result [OF assms(1)]
  have first: "Migrate_Up m n = (None, ?m')"
    using Up_run [OF assms(1), of n] up_plan_without_eligible [OF assms(2), of n] by simp
  obtain v2 d2 r2 m2 where ver2: "Migrate_Version ?m' = ((v2, d2, r2), m2)"
    by (metis prod.collapse)
  note f2 = Version_frame [OF ver2] and r2 = Version_result [OF ver2]
  have inv2: "invoked m2 = invoked m" and docs2: "documents (db m2) = documents (db m)"
    using f1 f2 by simp_all
  have second: "invoked (snd (Migrate_Up ?m' n')) = invoked m
      \<and> documents (db (snd (Migrate_Up ?m' n'))) = documents (db m)
      \<and> (\<forall>e. fst (Migrate_Up ?m' n') = Some e \<longrightarrow> driver_failure (faults (db m)) e)"
  proof (cases r2)
    case (Some e)
    have "driver_failure (faults (db ?m')) e" using r2 Some by simp
    then have "driver_failure (faults (db m)) e"
      using r1 by (auto intro: driver_failure_mono)
    then show ?thesis
      using Up_Version_error [of ?m' v2 d2 e m2 n'] ver2 Some inv2 docs2 by simp
  next
    case None
    have "(v2, d2) = (v, d)" using r1 r2 None f1 by simp
    then have "\<forall>mg\<in>set (migrations ?m'). Version mg \<le> v2 \<or> Up mg = None"
      using assms(2) by (simp add: migrationSort_set)
    from up_plan_without_eligible [OF this, of n']
    have "Migrate_Up ?m' n' = (None, m2\<lparr>migrations := migrationSort (migrations ?m')\<rparr>)"
      using Up_run [of ?m' v2 d2 m2 n'] ver2 None by simp
    then show ?thesis using inv2 docs2 by simp
  qed
  show ?thesis using first second f1 by simp
qed

theorem Up_without_eligible_is_idle_witness:
  "fst (Migrate_Version example_Migrate_at_2) = (2, ''two'', None)
   \<and> fst (Migrate_Up example_Migrate_at_2 AllAvailable) = None
   \<and> invoked (snd (Migrate_Up example_Migrate_at_2 AllAvailable)) = []
   \<and> documents (db (snd (Migrate_Up example_Migrate_at_2 AllAvailable))) =
       documents (db example_Migrate_at_2)
   \<and> documents (db (snd (Migrate_Up (snd (Migrate_Up example_Migrate_at_2 AllAvailable)) 1))) =
       documents (db example_Migrate_at_2)"
proof -
  have v: "fst (Migrate_Version example_Migrate_at_2) = (2, ''two'', None)"
    by code_simp
  then obtain m1 where ver: "Migrate_Version example_Migrate_at_2 = ((2, ''two'', None), m1)"
    by (cases "Migrate_Version example_Migrate_at_2") auto
  have el: "\<forall>mg\<in>set (migrations example_Migrate_at_2). Version mg \<le> 2 \<or> Up mg = None"
    by (simp add: example_Migrate_at_2_def NewMigrate_def example_registry_def word_le_nat_alt)
  have i: "invoked example_Migrate_at_2 = []"
    by (simp add: example_Migrate_at_2_def NewMigrate_def)
note t = Up_without_eligible_is_idle [OF ver el, of AllAvailable 1]
  have "fst (Migrate_Up example_Migrate_at_2 AllAvailable) = None"
    using conjunct1 [OF t] by simp
  moreover have "invoked (snd (Migrate_Up example_Migrate_at_2 AllAvailable)) = []
   \<and> documents (db (snd (Migrate_Up example_Migrate_at_2 AllAvailable))) =
       documents (db example_Migrate_at_2)
   \<and> documents (db (snd (Migrate_Up (snd (Migrate_Up example_Migrate_at_2 AllAvailable)) 1))) =
       documents (db example_Migrate_at_2)"
    using conjunct2 [OF t] by (simp add: i)
  ultimately show ?thesis using v by simp
qed

subsection \<open>C6: a migration without the action costs no step\<close>

lemma take_of_plan:
  "k \<le> length (take b xs) \<Longrightarrow> k \<le> b \<and> take k (take b xs) = take k xs"
  by (simp add: min_absorb1)

lemma Up_invoked:
  assumes ver: "Migrate_Version m = ((v, d, None), m1)" and up: "Migrate_Up m n = (r, m')"
  shows "\<exists>k\<le>length (up_plan v n (migrations m)).
           invoked m' = invoked m @ take k (up_plan v n (migrations m)) \<and>
           (r = None \<longrightarrow> k = length (up_plan v n (migrations m)))"
proof -
  let ?m2 = "m1\<lparr>migrations := migrationSort (migrations m)\<rparr>"
  have run: "run_steps up_step (up_plan v n (migrations m)) ?m2 = (r, m')"
    using Up_run [OF ver, of n] up by simp
  have "invoked ?m2 = invoked m" using Version_frame [OF ver] by simp
  with run_steps_invoked [of up_step "\<lambda>mg. mg", OF _ run] up_step_effect
  show ?thesis by simp
qed

lemma Down_invoked:
  assumes ver: "Migrate_Version m = ((v, d, None), m1)" and down: "Migrate_Down m n = (r, m')"
  shows "\<exists>k\<le>length (down_plan v n (migrations m)).
           invoked m' = invoked m @ map fst (take k (down_plan v n (migrations m))) \<and>
           (r = None \<longrightarrow> k = length (down_plan v n (migrations m)))"
proof -
  let ?m2 = "m1\<lparr>migrations := migrationSort (migrations m)\<rparr>"
  have run: "run_steps down_step (down_plan v n (migrations m)) ?m2 = (r, m')"
    using Down_run [OF ver, of n] down by simp
  have "invoked ?m2 = invoked m" using Version_frame [OF ver] by simp
  with run_steps_invoked [of down_step fst, OF _ run] down_step_effect
  show ?thesis by simp
qed

text \<open>
  C6. For every registry and every step count \<open>n\<close>, the actions \<^verbatim>\<open>Up(n)\<close> invokes are
  those of the first \<open>k\<close> migrations, in sorted order, that are newer than the current
  version and have a forward action; \<open>k\<close> is at most the clamped step count, and when
  \<^verbatim>\<open>Up\<close> succeeds it is the smaller of the step count and the number of such
  migrations. So a migration without a forward action is never invoked and takes nothing
  from the budget. The same holds for \<^verbatim>\<open>Down\<close>, the backward action, and the
  migrations at most the current version, in descending order.
\<close>

theorem nil_actions_cost_no_step:
  assumes "Migrate_Version m = ((v, d, None), m1)"
  shows "(\<forall>r m'. Migrate_Up m n = (r, m') \<longrightarrow>
            (\<exists>k \<le> step_budget n (length (migrations m)).
               invoked m' = invoked m @
                 take k (filter (\<lambda>mg. v < Version mg \<and> Up mg \<noteq> None)
                           (migrationSort (migrations m))) \<and>
               (r = None \<longrightarrow>
                  k = min (step_budget n (length (migrations m)))
                        (length (filter (\<lambda>mg. v < Version mg \<and> Up mg \<noteq> None)
                                   (migrationSort (migrations m)))))))
       \<and> (\<forall>mg\<in>set (drop (length (invoked m)) (invoked (snd (Migrate_Up m n)))). Up mg \<noteq> None)
       \<and> (\<forall>r m'. Migrate_Down m n = (r, m') \<longrightarrow>
            (\<exists>k \<le> step_budget n (length (migrations m)).
               invoked m' = invoked m @
                 map fst (take k (filter (\<lambda>s. Version (fst s) \<le> v \<and> Down (fst s) \<noteq> None)
                           (rev (with_previous (migrationSort (migrations m)))))) \<and>
               (r = None \<longrightarrow>
                  k = min (step_budget n (length (migrations m)))
                        (length (filter (\<lambda>s. Version (fst s) \<le> v \<and> Down (fst s) \<noteq> None)
                                   (rev (with_previous (migrationSort (migrations m)))))))))
       \<and> (\<forall>mg\<in>set (drop (length (invoked m)) (invoked (snd (Migrate_Down m n)))).
            Down mg \<noteq> None)"
proof -
  let ?b = "step_budget n (length (migrations m))"
  let ?E = "filter (\<lambda>mg. v < Version mg \<and> Up mg \<noteq> None) (migrationSort (migrations m))"
  let ?D = "filter (\<lambda>s. Version (fst s) \<le> v \<and> Down (fst s) \<noteq> None)
              (rev (with_previous (migrationSort (migrations m))))"
  have pu: "up_plan v n (migrations m) = take ?b ?E"
    by (simp add: up_plan_def up_eligible_def [abs_def])
  have pd: "down_plan v n (migrations m) = take ?b ?D"
    by (simp add: down_plan_def down_eligible_def)
  have up: "\<exists>k\<le>?b. invoked m' = invoked m @ take k ?E \<and> (r = None \<longrightarrow> k = min ?b (length ?E))"
    if "Migrate_Up m n = (r, m')" for r m'
  proof -
    from Up_invoked [OF assms that] obtain k where k: "k \<le> length (take ?b ?E)"
      "invoked m' = invoked m @ take k (take ?b ?E)" "r = None \<longrightarrow> k = length (take ?b ?E)"
      unfolding pu by blast
    with take_of_plan [of k ?b ?E] show ?thesis
      by (intro exI [of _ k]) (simp add: min.commute)
  qed
  have down: "\<exists>k\<le>?b. invoked m' = invoked m @ map fst (take k ?D) \<and>
      (r = None \<longrightarrow> k = min ?b (length ?D))"
    if "Migrate_Down m n = (r, m')" for r m'
  proof -
    from Down_invoked [OF assms that] obtain k where k: "k \<le> length (take ?b ?D)"
      "invoked m' = invoked m @ map fst (take k (take ?b ?D))"
      "r = None \<longrightarrow> k = length (take ?b ?D)"
      unfolding pd by blast
    with take_of_plan [of k ?b ?D] show ?thesis
      by (intro exI [of _ k]) (simp add: min.commute)
  qed
  have upn: "\<forall>mg\<in>set (drop (length (invoked m)) (invoked (snd (Migrate_Up m n)))). Up mg \<noteq> None"
  proof -
    from up [of "fst (Migrate_Up m n)" "snd (Migrate_Up m n)"] obtain k where
      "invoked (snd (Migrate_Up m n)) = invoked m @ take k ?E" by auto
    then have "drop (length (invoked m)) (invoked (snd (Migrate_Up m n))) = take k ?E"
      by simp
    moreover have "set (take k ?E) \<subseteq> set ?E" by (rule set_take_subset)
    ultimately show ?thesis by auto
  qed
  have downn: "\<forall>mg\<in>set (drop (length (invoked m)) (invoked (snd (Migrate_Down m n)))).
      Down mg \<noteq> None"
  proof -
    from down [of "fst (Migrate_Down m n)" "snd (Migrate_Down m n)"] obtain k where
      "invoked (snd (Migrate_Down m n)) = invoked m @ map fst (take k ?D)" by auto
    then have "drop (length (invoked m)) (invoked (snd (Migrate_Down m n))) =
        map fst (take k ?D)"
      by simp
    moreover have "set (take k ?D) \<subseteq> set ?D" by (rule set_take_subset)
    ultimately show ?thesis by auto
  qed
  from up down upn downn show ?thesis by blast
qed

theorem nil_actions_cost_no_step_witness:
  "fst (Migrate_Up example_Migrate_gaps 2) = None
   \<and> invoked (snd (Migrate_Up example_Migrate_gaps 2)) =
       [example_registry_gaps ! 0, example_registry_gaps ! 2]
   \<and> fst (Migrate_Down example_Migrate_gaps_at_4 2) = None
   \<and> invoked (snd (Migrate_Down example_Migrate_gaps_at_4 2)) =
       [example_registry_gaps ! 3, example_registry_gaps ! 1]"
proof -
  have srt: "migrationSort example_registry_gaps = example_registry_gaps"
    by (simp add: migrationSort_def example_registry_gaps_def word_le_nat_alt)
  have b: "step_budget 2 (length example_registry_gaps) = 2"
    by (simp add: step_budget_def example_registry_gaps_def)
  have E: "filter (\<lambda>mg. 0 < Version mg \<and> Up mg \<noteq> None) example_registry_gaps =
      [example_registry_gaps ! 0, example_registry_gaps ! 2, example_registry_gaps ! 3]"
    by (simp add: example_registry_gaps_def word_less_nat_alt)
  have D: "filter (\<lambda>s. Version (fst s) \<le> 4 \<and> Down (fst s) \<noteq> None)
        (rev (with_previous example_registry_gaps)) =
      [(example_registry_gaps ! 3, example_registry_gaps ! 2),
       (example_registry_gaps ! 1, example_registry_gaps ! 0),
       (example_registry_gaps ! 0, \<lparr>Version = 0, Description = '''', Up = None, Down = None\<rparr>)]"
    by (simp add: example_registry_gaps_def with_previous_def word_le_nat_alt)
  have up: "fst (Migrate_Up example_Migrate_gaps 2) = None
      \<and> invoked (snd (Migrate_Up example_Migrate_gaps 2)) =
          [example_registry_gaps ! 0, example_registry_gaps ! 2]"
  proof -
    let ?m = example_Migrate_gaps
    have "fst (Migrate_Version ?m) = (0, '''', None)" by code_simp
    then obtain m1 where ver: "Migrate_Version ?m = ((0, '''', None), m1)"
      by (cases "Migrate_Version ?m") auto
    have ok: "fst (Migrate_Up ?m 2) = None" by code_simp
    then obtain m' where run: "Migrate_Up ?m 2 = (None, m')"
      by (cases "Migrate_Up ?m 2") auto
    have ms: "migrations ?m = example_registry_gaps" "invoked ?m = []"
      by (simp_all add: example_Migrate_gaps_def NewMigrate_def)
    note t = conjunct1 [OF nil_actions_cost_no_step [OF ver, of 2], rule_format, OF run]
    then obtain k where "invoked m' = take k
        [example_registry_gaps ! 0, example_registry_gaps ! 2, example_registry_gaps ! 3]"
      "k = 2"
      unfolding ms srt b E by auto
    then have "invoked m' = [example_registry_gaps ! 0, example_registry_gaps ! 2]"
      by simp
    with ok run show ?thesis by simp
  qed
  have down: "fst (Migrate_Down example_Migrate_gaps_at_4 2) = None
      \<and> invoked (snd (Migrate_Down example_Migrate_gaps_at_4 2)) =
          [example_registry_gaps ! 3, example_registry_gaps ! 1]"
  proof -
    let ?m = example_Migrate_gaps_at_4
    have "fst (Migrate_Version ?m) = (4, ''four'', None)" by code_simp
    then obtain m1 where ver: "Migrate_Version ?m = ((4, ''four'', None), m1)"
      by (cases "Migrate_Version ?m") auto
    have ok: "fst (Migrate_Down ?m 2) = None" by code_simp
    then obtain m' where run: "Migrate_Down ?m 2 = (None, m')"
      by (cases "Migrate_Down ?m 2") auto
    have ms: "migrations ?m = example_registry_gaps" "invoked ?m = []"
      by (simp_all add: example_Migrate_gaps_at_4_def NewMigrate_def)
    note t = conjunct1 [OF conjunct2 [OF conjunct2 [OF nil_actions_cost_no_step [OF ver, of 2]]],
        rule_format, OF run]
    then obtain k where "invoked m' = map fst (take k
        [(example_registry_gaps ! 3, example_registry_gaps ! 2),
         (example_registry_gaps ! 1, example_registry_gaps ! 0),
         (example_registry_gaps ! 0, \<lparr>Version = 0, Description = '''', Up = None, Down = None\<rparr>)])"
      "k = 2"
      unfolding ms srt b D by auto
    then have "invoked m' = [example_registry_gaps ! 3, example_registry_gaps ! 1]"
      by simp
    with ok run show ?thesis by simp
  qed
  from up down show ?thesis by simp
qed

subsection \<open>C4: a batch that fails\<close>

text \<open>
  C4, as stated, fails: an action receives the database and may write the history
  collection itself. In the registry below the forward action of migration 2 inserts a
  record (99, rogue) into the history collection and then fails. \<^verbatim>\<open>Up(AllAvailable)\<close>
  on the empty database applies migration 1, starts migration 2 and returns its error;
  the step that failed is the second of the plan, yet the history holds two records, the
  second one written by the attempted step, and \<^verbatim>\<open>Version()\<close> afterwards returns
  (99, rogue), not the record of the last completed step.
\<close>

theorem failure_keeps_completed_steps_counterexample:
  "fst (Migrate_Version example_Migrate_rogue) = (0, '''', None)
   \<and> map Version (up_plan 0 AllAvailable (migrations example_Migrate_rogue)) = [1, 2]
   \<and> fst (run_steps up_step (take 1 (up_plan 0 AllAvailable (migrations example_Migrate_rogue)))
            (snd (Migrate_Version example_Migrate_rogue)
               \<lparr>migrations := migrationSort (migrations example_Migrate_rogue)\<rparr>)) = None
   \<and> fst (up_step (up_plan 0 AllAvailable (migrations example_Migrate_rogue) ! 1)
            (snd (run_steps up_step
               (take 1 (up_plan 0 AllAvailable (migrations example_Migrate_rogue)))
               (snd (Migrate_Version example_Migrate_rogue)
                  \<lparr>migrations := migrationSort (migrations example_Migrate_rogue)\<rparr>)))) =
       Some (Failure ''boom'')
   \<and> fst (Migrate_Up example_Migrate_rogue AllAvailable) = Some (Failure ''boom'')
   \<and> map Version (invoked (snd (Migrate_Up example_Migrate_rogue AllAvailable))) = [1, 2]
   \<and> history (snd (Migrate_Up example_Migrate_rogue AllAvailable)) =
       [(1, ''one''), (99, ''rogue'')]
   \<and> fst (Migrate_Version (snd (Migrate_Up example_Migrate_rogue AllAvailable))) =
       (99, ''rogue'', None)"
proof (intro conjI)
  show "fst (Migrate_Version example_Migrate_rogue) = (0, '''', None)" by code_simp
  show "map Version (up_plan 0 AllAvailable (migrations example_Migrate_rogue)) = [1, 2]"
    by code_simp
  show "fst (run_steps up_step (take 1 (up_plan 0 AllAvailable (migrations example_Migrate_rogue)))
            (snd (Migrate_Version example_Migrate_rogue)
               \<lparr>migrations := migrationSort (migrations example_Migrate_rogue)\<rparr>)) = None"
    by code_simp
  show "fst (up_step (up_plan 0 AllAvailable (migrations example_Migrate_rogue) ! 1)
            (snd (run_steps up_step
               (take 1 (up_plan 0 AllAvailable (migrations example_Migrate_rogue)))
               (snd (Migrate_Version example_Migrate_rogue)
                  \<lparr>migrations := migrationSort (migrations example_Migrate_rogue)\<rparr>)))) =
       Some (Failure ''boom'')"
    by code_simp
  show "fst (Migrate_Up example_Migrate_rogue AllAvailable) = Some (Failure ''boom'')"
    by code_simp
  show "map Version (invoked (snd (Migrate_Up example_Migrate_rogue AllAvailable))) = [1, 2]"
    by code_simp
  show "history (snd (Migrate_Up example_Migrate_rogue AllAvailable)) =
       [(1, ''one''), (99, ''rogue'')]"
    by code_simp
  show "fst (Migrate_Version (snd (Migrate_Up example_Migrate_rogue AllAvailable))) =
       (99, ''rogue'', None)"
    by code_simp
qed

text \<open>
  C4, amended. For every \<^verbatim>\<open>Up\<close> or \<^verbatim>\<open>Down\<close> batch that starts from a successful
  \<^verbatim>\<open>Version()\<close>: if the first \<open>k\<close> steps of the plan succeed and step \<open>k + 1\<close> fails
  (its action or its append), the call returns the error and the state of that step; and
  if the call returns an error, there is such a \<open>k\<close>, and the journal holds the \<open>k + 1\<close>
  actions started and no later one. When, in addition, each of these \<open>k + 1\<close> actions left
  the history as it was in the state where it ran (the records are written by the
  orchestrator alone), the history is the one before the call followed by the records of
  exactly the \<open>k\<close> completed steps, so no record is removed and the attempted step has
  none; and \<^verbatim>\<open>Version()\<close> afterwards, when it returns without error, returns the record
  of the last completed step, or what it returned before the call when \<open>k = 0\<close>. Actions
  of the registry that the batch does not start are not constrained.
\<close>

theorem failure_keeps_completed_steps:
  assumes ver: "Migrate_Version m = ((v, d, None), m1)"
  shows "(\<forall>k e mk m'.
            k < length (up_plan v n (migrations m)) \<and>
            run_steps up_step (take k (up_plan v n (migrations m)))
              (m1\<lparr>migrations := migrationSort (migrations m)\<rparr>) = (None, mk) \<and>
            up_step (up_plan v n (migrations m) ! k) mk = (Some e, m') \<longrightarrow>
            Migrate_Up m n = (Some e, m'))
       \<and> (\<forall>e m'. Migrate_Up m n = (Some e, m') \<longrightarrow>
            (\<exists>k<length (up_plan v n (migrations m)). \<exists>mk.
               run_steps up_step (take k (up_plan v n (migrations m)))
                 (m1\<lparr>migrations := migrationSort (migrations m)\<rparr>) = (None, mk) \<and>
               up_step (up_plan v n (migrations m) ! k) mk = (Some e, m') \<and>
               invoked m' = invoked m @ take (Suc k) (up_plan v n (migrations m)) \<and>
               ((\<forall>j. j \<le> k \<longrightarrow>
                    keeps_history (the (Up (up_plan v n (migrations m) ! j)))
                      (snd (run_steps up_step (take j (up_plan v n (migrations m)))
                              (m1\<lparr>migrations := migrationSort (migrations m)\<rparr>)))) \<longrightarrow>
                  history m' = history m @
                    map (\<lambda>mg. (Version mg, Description mg))
                      (take k (up_plan v n (migrations m))) \<and>
                  (\<forall>v' d' m''. Migrate_Version m' = ((v', d', None), m'') \<longrightarrow>
                     (v', d') =
                       (if k = 0 then (v, d)
                        else (Version (up_plan v n (migrations m) ! (k - 1)),
                              Description (up_plan v n (migrations m) ! (k - 1))))))))
       \<and> (\<forall>k e mk m'.
            k < length (down_plan v n (migrations m)) \<and>
            run_steps down_step (take k (down_plan v n (migrations m)))
              (m1\<lparr>migrations := migrationSort (migrations m)\<rparr>) = (None, mk) \<and>
            down_step (down_plan v n (migrations m) ! k) mk = (Some e, m') \<longrightarrow>
            Migrate_Down m n = (Some e, m'))
       \<and> (\<forall>e m'. Migrate_Down m n = (Some e, m') \<longrightarrow>
            (\<exists>k<length (down_plan v n (migrations m)). \<exists>mk.
               run_steps down_step (take k (down_plan v n (migrations m)))
                 (m1\<lparr>migrations := migrationSort (migrations m)\<rparr>) = (None, mk) \<and>
               down_step (down_plan v n (migrations m) ! k) mk = (Some e, m') \<and>
               invoked m' = invoked m @ map fst (take (Suc k) (down_plan v n (migrations m))) \<and>
               ((\<forall>j. j \<le> k \<longrightarrow>
                    keeps_history (the (Down (fst (down_plan v n (migrations m) ! j))))
                      (snd (run_steps down_step (take j (down_plan v n (migrations m)))
                              (m1\<lparr>migrations := migrationSort (migrations m)\<rparr>)))) \<longrightarrow>
                  history m' = history m @
                    map (\<lambda>s. (Version (snd s), Description (snd s)))
                      (take k (down_plan v n (migrations m))) \<and>
                  (\<forall>v' d' m''. Migrate_Version m' = ((v', d', None), m'') \<longrightarrow>
                     (v', d') =
                       (if k = 0 then (v, d)
                        else (Version (snd (down_plan v n (migrations m) ! (k - 1))),
                              Description (snd (down_plan v n (migrations m) ! (k - 1)))))))))"
proof -
  let ?C = "migrationsCollection m"
  let ?m2 = "m1\<lparr>migrations := migrationSort (migrations m)\<rparr>"
  note f = Version_frame [OF ver]
  have m2: "migrationsCollection ?m2 = ?C" "invoked ?m2 = invoked m" "history ?m2 = history m"
    using f by (simp_all add: history_def)
  have up_fails: "Migrate_Up m n = (Some e, m')"
    if "k < length (up_plan v n (migrations m)) \<and>
        run_steps up_step (take k (up_plan v n (migrations m))) ?m2 = (None, mk) \<and>
        up_step (up_plan v n (migrations m) ! k) mk = (Some e, m')" for k e mk m'
  proof -
    from that have "run_steps up_step (up_plan v n (migrations m)) ?m2 = (Some e, m')"
      using run_steps_fails_at [of k "up_plan v n (migrations m)" up_step ?m2 mk e m'] by blast
    then show ?thesis using Up_run [OF ver, of n] by simp
  qed
  have down_fails: "Migrate_Down m n = (Some e, m')"
    if "k < length (down_plan v n (migrations m)) \<and>
        run_steps down_step (take k (down_plan v n (migrations m))) ?m2 = (None, mk) \<and>
        down_step (down_plan v n (migrations m) ! k) mk = (Some e, m')" for k e mk m'
  proof -
    from that have "run_steps down_step (down_plan v n (migrations m)) ?m2 = (Some e, m')"
      using run_steps_fails_at [of k "down_plan v n (migrations m)" down_step ?m2 mk e m']
      by blast
    then show ?thesis using Down_run [OF ver, of n] by simp
  qed
  have up_failed: "\<exists>k<length (up_plan v n (migrations m)). \<exists>mk.
               run_steps up_step (take k (up_plan v n (migrations m))) ?m2 = (None, mk) \<and>
               up_step (up_plan v n (migrations m) ! k) mk = (Some e, m') \<and>
               invoked m' = invoked m @ take (Suc k) (up_plan v n (migrations m)) \<and>
               ((\<forall>j. j \<le> k \<longrightarrow>
                    keeps_history (the (Up (up_plan v n (migrations m) ! j)))
                      (snd (run_steps up_step (take j (up_plan v n (migrations m))) ?m2))) \<longrightarrow>
                  history m' = history m @
                    map (\<lambda>mg. (Version mg, Description mg))
                      (take k (up_plan v n (migrations m))) \<and>
                  (\<forall>v' d' m''. Migrate_Version m' = ((v', d', None), m'') \<longrightarrow>
                     (v', d') =
                       (if k = 0 then (v, d)
                        else (Version (up_plan v n (migrations m) ! (k - 1)),
                              Description (up_plan v n (migrations m) ! (k - 1))))))"
    if call: "Migrate_Up m n = (Some e, m')" for e m'
  proof -
    let ?P = "up_plan v n (migrations m)"
    from call have run: "run_steps up_step ?P ?m2 = (Some e, m')"
      using Up_run [OF ver, of n] by simp
    from run_steps_failure [OF run] obtain k mk where k: "k < length ?P"
      "run_steps up_step (take k ?P) ?m2 = (None, mk)" "up_step (?P ! k) mk = (Some e, m')"
      by blast
    have inv: "invoked m' = invoked m @ take (Suc k) ?P"
      using failed_run_invoked [of up_step "\<lambda>mg. mg", OF _ k] up_step_effect m2 by simp
    have coll: "migrationsCollection m' = ?C"
    proof -
      have "migrationsCollection mk = migrationsCollection ?m2"
        by (rule run_steps_keeps [of "take k ?P" up_step migrationsCollection, OF _ k(2)])
          (simp add: up_step_effect)
      with up_step_effect [OF k(3)] m2 show ?thesis by simp
    qed
    have quiet: "history m' = history m @ map (\<lambda>mg. (Version mg, Description mg)) (take k ?P) \<and>
        (\<forall>v' d' m''. Migrate_Version m' = ((v', d', None), m'') \<longrightarrow>
           (v', d') = (if k = 0 then (v, d)
                       else (Version (?P ! (k - 1)), Description (?P ! (k - 1)))))"
      if q: "\<forall>j. j \<le> k \<longrightarrow>
               keeps_history (the (Up (?P ! j))) (snd (run_steps up_step (take j ?P) ?m2))"
    proof -
      have "history m' = history ?m2 @ map (\<lambda>mg. (Version mg, Description mg)) (take k ?P)"
        by (rule failed_run_history
            [of "\<lambda>mg. keeps_history (the (Up mg))" up_step, OF _ k q])
          (rule up_step_history)
      then have h: "history m' = history m @ map (\<lambda>mg. (Version mg, Description mg)) (take k ?P)"
        using m2 by simp
      from Version_after_failed_run [OF ver h coll k(1)] h show ?thesis by blast
    qed
    from k inv quiet show ?thesis by blast
  qed
  have down_failed: "\<exists>k<length (down_plan v n (migrations m)). \<exists>mk.
               run_steps down_step (take k (down_plan v n (migrations m))) ?m2 = (None, mk) \<and>
               down_step (down_plan v n (migrations m) ! k) mk = (Some e, m') \<and>
               invoked m' = invoked m @ map fst (take (Suc k) (down_plan v n (migrations m))) \<and>
               ((\<forall>j. j \<le> k \<longrightarrow>
                    keeps_history (the (Down (fst (down_plan v n (migrations m) ! j))))
                      (snd (run_steps down_step (take j (down_plan v n (migrations m))) ?m2))) \<longrightarrow>
                  history m' = history m @
                    map (\<lambda>s. (Version (snd s), Description (snd s)))
                      (take k (down_plan v n (migrations m))) \<and>
                  (\<forall>v' d' m''. Migrate_Version m' = ((v', d', None), m'') \<longrightarrow>
                     (v', d') =
                       (if k = 0 then (v, d)
                        else (Version (snd (down_plan v n (migrations m) ! (k - 1))),
                              Description (snd (down_plan v n (migrations m) ! (k - 1)))))))"
    if call: "Migrate_Down m n = (Some e, m')" for e m'
  proof -
    let ?P = "down_plan v n (migrations m)"
    from call have run: "run_steps down_step ?P ?m2 = (Some e, m')"
      using Down_run [OF ver, of n] by simp
    from run_steps_failure [OF run] obtain k mk where k: "k < length ?P"
      "run_steps down_step (take k ?P) ?m2 = (None, mk)" "down_step (?P ! k) mk = (Some e, m')"
      by blast
    have inv: "invoked m' = invoked m @ map fst (take (Suc k) ?P)"
      using failed_run_invoked [of down_step fst, OF _ k] down_step_effect m2 by simp
    have coll: "migrationsCollection m' = ?C"
    proof -
      have "migrationsCollection mk = migrationsCollection ?m2"
        by (rule run_steps_keeps [of "take k ?P" down_step migrationsCollection, OF _ k(2)])
          (simp add: down_step_effect)
      with down_step_effect [OF k(3)] m2 show ?thesis by simp
    qed
    have quiet: "history m' = history m @
          map (\<lambda>s. (Version (snd s), Description (snd s))) (take k ?P) \<and>
        (\<forall>v' d' m''. Migrate_Version m' = ((v', d', None), m'') \<longrightarrow>
           (v', d') = (if k = 0 then (v, d)
                       else (Version (snd (?P ! (k - 1))), Description (snd (?P ! (k - 1))))))"
      if q: "\<forall>j. j \<le> k \<longrightarrow>
               keeps_history (the (Down (fst (?P ! j))))
                 (snd (run_steps down_step (take j ?P) ?m2))"
    proof -
      have "history m' = history ?m2 @
            map (\<lambda>s. (Version (snd s), Description (snd s))) (take k ?P)"
        by (rule failed_run_history
            [of "\<lambda>s. keeps_history (the (Down (fst s)))" down_step, OF _ k q])
          (rule down_step_history)
      then have h: "history m' = history m @
          map (\<lambda>s. (Version (snd s), Description (snd s))) (take k ?P)"
        using m2 by simp
      from Version_after_failed_run [OF ver h coll k(1)] h show ?thesis by blast
    qed
    from k inv quiet show ?thesis by blast
  qed
  from up_fails up_failed down_fails down_failed show ?thesis by blast
qed

theorem failure_keeps_completed_steps_witness:
  "fst (Migrate_Up example_Migrate_failing AllAvailable) = Some (Failure ''boom'')
   \<and> invoked (snd (Migrate_Up example_Migrate_failing AllAvailable)) =
       [example_registry_failing ! 0, example_registry_failing ! 1]
   \<and> history (snd (Migrate_Up example_Migrate_failing AllAvailable)) = [(1, ''one'')]
   \<and> fst (Migrate_Version (snd (Migrate_Up example_Migrate_failing AllAvailable))) =
       (1, ''one'', None)
   \<and> fst (Migrate_Down example_Migrate_at_2_disk_full AllAvailable) = Some (Failure ''disk full'')
   \<and> invoked (snd (Migrate_Down example_Migrate_at_2_disk_full AllAvailable)) =
       [example_registry ! 0, example_registry ! 1]
   \<and> history (snd (Migrate_Down example_Migrate_at_2_disk_full AllAvailable)) =
       [(1, ''one''), (2, ''two''), (1, ''one'')]
   \<and> fst (Migrate_Version (snd (Migrate_Down example_Migrate_at_2_disk_full AllAvailable))) =
       (1, ''one'', None)"
proof -
  have up: "fst (Migrate_Up example_Migrate_failing AllAvailable) = Some (Failure ''boom'')
   \<and> invoked (snd (Migrate_Up example_Migrate_failing AllAvailable)) =
       [example_registry_failing ! 0, example_registry_failing ! 1]
   \<and> history (snd (Migrate_Up example_Migrate_failing AllAvailable)) = [(1, ''one'')]
   \<and> fst (Migrate_Version (snd (Migrate_Up example_Migrate_failing AllAvailable))) =
       (1, ''one'', None)"
  proof -
    let ?m = example_Migrate_failing
    let ?P = "up_plan 0 AllAvailable (migrations ?m)"
    let ?m2 = "snd (Migrate_Version ?m)\<lparr>migrations := migrationSort (migrations ?m)\<rparr>"
    let ?mk = "snd (run_steps up_step (take 1 ?P) ?m2)"
    let ?m' = "snd (up_step (?P ! 1) ?mk)"
    have ms: "migrations ?m = example_registry_failing" "invoked ?m = []" "history ?m = []"
      by (simp_all add: example_Migrate_failing_def NewMigrate_def history_def fresh_database_def
          defaultMigrationsCollection_def)
    have "fst (Migrate_Version ?m) = (0, '''', None)" by code_simp
    then have ver: "Migrate_Version ?m = ((0, '''', None), snd (Migrate_Version ?m))"
      by (cases "Migrate_Version ?m") auto
    have plan: "up_plan 0 AllAvailable example_registry_failing = example_registry_failing"
      by (simp add: up_plan_def up_eligible_def step_budget_def AllAvailable_def
          migrationSort_def example_registry_failing_def word_le_nat_alt word_less_nat_alt)
    have len: "1 < length ?P" unfolding ms plan by (simp add: example_registry_failing_def)
    have "fst (run_steps up_step (take 1 ?P) ?m2) = None" by code_simp
    then have pre: "run_steps up_step (take 1 ?P) ?m2 = (None, ?mk)"
      by (cases "run_steps up_step (take 1 ?P) ?m2") auto
    have "fst (up_step (?P ! 1) ?mk) = Some (Failure ''boom'')" by code_simp
    then have fail: "up_step (?P ! 1) ?mk = (Some (Failure ''boom''), ?m')"
      by (cases "up_step (?P ! 1) ?mk") auto
    note t = failure_keeps_completed_steps [OF ver, of AllAvailable]
    from conjunct1 [OF t, rule_format, of 1 ?mk "Failure ''boom''" ?m'] len pre fail
    have run: "Migrate_Up ?m AllAvailable = (Some (Failure ''boom''), ?m')" by blast
    then have m': "snd (Migrate_Up ?m AllAvailable) = ?m'" by simp
    have after: "fst (Migrate_Version ?m') = (1, ''one'', None)" by code_simp
    have q0: "keeps_history (the (Up (?P ! 0))) (snd (run_steps up_step (take 0 ?P) ?m2))"
      by code_simp
    have q1: "keeps_history (the (Up (?P ! 1))) (snd (run_steps up_step (take 1 ?P) ?m2))"
      by code_simp
    from conjunct1 [OF conjunct2 [OF t], rule_format, OF run]
    obtain k where k: "k < length ?P"
      "invoked ?m' = invoked ?m @ take (Suc k) ?P"
      "(\<forall>j. j \<le> k \<longrightarrow>
           keeps_history (the (Up (?P ! j))) (snd (run_steps up_step (take j ?P) ?m2))) \<longrightarrow>
         history ?m' = history ?m @ map (\<lambda>mg. (Version mg, Description mg)) (take k ?P)"
      by blast
    have "length (invoked ?m') = 2" by code_simp
    with k(1,2) have k1: "k = 1"
      unfolding ms plan by (simp add: example_registry_failing_def)
    have "\<forall>j. j \<le> k \<longrightarrow>
           keeps_history (the (Up (?P ! j))) (snd (run_steps up_step (take j ?P) ?m2))"
    proof (intro allI impI)
      fix j :: nat
      assume "j \<le> k"
      with k1 consider (a) "j = 0" | (b) "j = 1" by linarith
      then show "keeps_history (the (Up (?P ! j))) (snd (run_steps up_step (take j ?P) ?m2))"
      proof cases
        case a
        show ?thesis unfolding a by (rule q0)
      next
        case b
        show ?thesis unfolding b by (rule q1)
      qed
    qed
    with k(3) have "history ?m' = history ?m @
        map (\<lambda>mg. (Version mg, Description mg)) (take k ?P)"
      by blast
    with k(2) k1 have "invoked ?m' = [example_registry_failing ! 0, example_registry_failing ! 1]"
      "history ?m' = [(1, ''one'')]"
      unfolding ms plan by (simp_all add: example_registry_failing_def)
    with run after show ?thesis unfolding m' by simp
  qed
  have down: "fst (Migrate_Down example_Migrate_at_2_disk_full AllAvailable) =
       Some (Failure ''disk full'')
   \<and> invoked (snd (Migrate_Down example_Migrate_at_2_disk_full AllAvailable)) =
       [example_registry ! 0, example_registry ! 1]
   \<and> history (snd (Migrate_Down example_Migrate_at_2_disk_full AllAvailable)) =
       [(1, ''one''), (2, ''two''), (1, ''one'')]
   \<and> fst (Migrate_Version (snd (Migrate_Down example_Migrate_at_2_disk_full AllAvailable))) =
       (1, ''one'', None)"
  proof -
    let ?m = example_Migrate_at_2_disk_full
    let ?P = "down_plan 2 AllAvailable (migrations ?m)"
    let ?m2 = "snd (Migrate_Version ?m)\<lparr>migrations := migrationSort (migrations ?m)\<rparr>"
    let ?mk = "snd (run_steps down_step (take 1 ?P) ?m2)"
    let ?m' = "snd (down_step (?P ! 1) ?mk)"
    have ms: "migrations ?m = example_registry" "invoked ?m = []"
      "history ?m = [(1, ''one''), (2, ''two'')]"
      by (simp_all add: example_Migrate_at_2_disk_full_def NewMigrate_def history_def
          example_database_at_2_def defaultMigrationsCollection_def)
    have "fst (Migrate_Version ?m) = (2, ''two'', None)" by code_simp
    then have ver: "Migrate_Version ?m = ((2, ''two'', None), snd (Migrate_Version ?m))"
      by (cases "Migrate_Version ?m") auto
    have plan: "down_plan 2 AllAvailable example_registry =
        [(example_registry ! 0, example_registry ! 1),
         (example_registry ! 1, \<lparr>Version = 0, Description = '''', Up = None, Down = None\<rparr>)]"
      by (simp add: down_plan_def down_eligible_def step_budget_def AllAvailable_def
          migrationSort_def with_previous_def example_registry_def word_le_nat_alt)
    have len: "1 < length ?P" unfolding ms plan by simp
    have "fst (run_steps down_step (take 1 ?P) ?m2) = None" by code_simp
    then have pre: "run_steps down_step (take 1 ?P) ?m2 = (None, ?mk)"
      by (cases "run_steps down_step (take 1 ?P) ?m2") auto
    have "fst (down_step (?P ! 1) ?mk) = Some (Failure ''disk full'')" by code_simp
    then have fail: "down_step (?P ! 1) ?mk = (Some (Failure ''disk full''), ?m')"
      by (cases "down_step (?P ! 1) ?mk") auto
    note t = conjunct2 [OF conjunct2 [OF failure_keeps_completed_steps [OF ver, of AllAvailable]]]
    from conjunct1 [OF t, rule_format, of 1 ?mk "Failure ''disk full''" ?m'] len pre fail
    have run: "Migrate_Down ?m AllAvailable = (Some (Failure ''disk full''), ?m')" by blast
    then have m': "snd (Migrate_Down ?m AllAvailable) = ?m'" by simp
    have after: "fst (Migrate_Version ?m') = (1, ''one'', None)" by code_simp
    have q0: "keeps_history (the (Down (fst (?P ! 0))))
        (snd (run_steps down_step (take 0 ?P) ?m2))"
      by code_simp
    have q1: "keeps_history (the (Down (fst (?P ! 1))))
        (snd (run_steps down_step (take 1 ?P) ?m2))"
      by code_simp
    from conjunct2 [OF t, rule_format, OF run]
    obtain k where k: "k < length ?P"
      "invoked ?m' = invoked ?m @ map fst (take (Suc k) ?P)"
      "(\<forall>j. j \<le> k \<longrightarrow>
           keeps_history (the (Down (fst (?P ! j))))
             (snd (run_steps down_step (take j ?P) ?m2))) \<longrightarrow>
         history ?m' = history ?m @
           map (\<lambda>s. (Version (snd s), Description (snd s))) (take k ?P)"
      by blast
    have "length (invoked ?m') = 2" by code_simp
    with k(1,2) have k1: "k = 1" unfolding ms plan by (cases k) auto
    have "\<forall>j. j \<le> k \<longrightarrow>
           keeps_history (the (Down (fst (?P ! j))))
             (snd (run_steps down_step (take j ?P) ?m2))"
    proof (intro allI impI)
      fix j :: nat
      assume "j \<le> k"
      with k1 consider (a) "j = 0" | (b) "j = 1" by linarith
      then show "keeps_history (the (Down (fst (?P ! j))))
             (snd (run_steps down_step (take j ?P) ?m2))"
      proof cases
        case a
        show ?thesis unfolding a by (rule q0)
      next
        case b
        show ?thesis unfolding b by (rule q1)
      qed
    qed
    with k(3) have "history ?m' = history ?m @
        map (\<lambda>s. (Version (snd s), Description (snd s))) (take k ?P)"
      by blast
    with k(2) k1 have "invoked ?m' = [example_registry ! 0, example_registry ! 1]"
      "history ?m' = [(1, ''one''), (2, ''two''), (1, ''one'')]"
      unfolding ms plan by (simp_all add: example_registry_def)
    with run after show ?thesis unfolding m' by simp
  qed
  from up down show ?thesis by simp
qed

subsection \<open>C3: Up followed by Down\<close>

text \<open>Lists sorted by a key, the pairing with the previous migration, and the last step
  of a successful run.\<close>

lemma sorted_split_at:
  "sorted (map f xs) \<Longrightarrow>
   xs = filter (\<lambda>x. f x \<le> v) xs @ filter (\<lambda>x. v < f x) xs"
proof (induction xs)
  case Nil
  then show ?case by simp
next
  case (Cons x xs)
  then have IH: "xs = filter (\<lambda>x. f x \<le> v) xs @ filter (\<lambda>x. v < f x) xs"
    and le: "\<forall>y\<in>set xs. f x \<le> f y"
    by simp_all
  show ?case
  proof (cases "f x \<le> v")
    case True
    with IH show ?thesis by simp
  next
    case False
    with le have "\<forall>y\<in>set xs. v < f y" by auto
    then have "filter (\<lambda>x. f x \<le> v) xs = []" "filter (\<lambda>x. v < f x) xs = xs"
      by (auto simp: filter_empty_conv filter_id_conv)
    with False show ?thesis by simp
  qed
qed

lemma zip_previous_append:
  "zip (xs @ ys) (z # xs @ ys) = zip xs (z # xs) @ zip ys (last (z # xs) # ys)"
  by (induction xs arbitrary: z) simp_all

lemma with_previous_append:
  "with_previous (xs @ ys) =
     with_previous xs @
     zip ys (last (\<lparr>Version = 0, Description = '''', Up = None, Down = None\<rparr> # xs) # ys)"
  unfolding with_previous_def by (rule zip_previous_append)

lemma filter_zip_all:
  "\<forall>x\<in>set xs. Q x \<Longrightarrow> filter (\<lambda>s. Q (fst s)) (zip xs ys) = zip xs ys"
  by (auto simp: filter_id_conv dest: set_zip_leftD)

lemma filter_zip_none:
  "\<forall>x\<in>set xs. \<not> Q x \<Longrightarrow> filter (\<lambda>s. Q (fst s)) (zip xs ys) = []"
  by (auto simp: filter_empty_conv dest: set_zip_leftD)

lemma run_steps_snoc:
  "run_steps step (xs @ [x]) m = (None, m') \<Longrightarrow>
   \<exists>mk. run_steps step xs m = (None, mk) \<and> step x mk = (None, m')"
proof (induction xs arbitrary: m)
  case Nil
  then show ?case by (cases "step x m") (auto split: option.splits)
next
  case (Cons y ys)
  obtain r1 m1 where s: "step y m = (r1, m1)" by (cases "step y m")
  with Cons.prems have "r1 = None" "run_steps step (ys @ [x]) m1 = (None, m')"
    by (cases r1; simp)+
  with Cons.IH [of m1] s show ?case by simp
qed

lemma up_step_last:
  assumes "up_step mg m = (None, m')"
  shows "history m' \<noteq> [] \<and> last (history m') = (Version mg, Description mg)"
proof -
  obtain r1 d1 where a: "the (Up mg) (db m) = (r1, d1)" by (cases "the (Up mg) (db m)")
  let ?m1 = "m\<lparr>db := d1, invoked := invoked m @ [mg]\<rparr>"
  obtain r2 m2 where sv: "Migrate_SetVersion ?m1 (Version mg) (Description mg) = (r2, m2)"
    by (cases "Migrate_SetVersion ?m1 (Version mg) (Description mg)")
  from assms a sv have "r1 = None" "r2 = None"
    "m' = Migrate_printUp m2 (Version mg) (Description mg)"
    by (auto simp: up_step_def split: option.splits)
  moreover have "history (Migrate_printUp m2 (Version mg) (Description mg)) = history m2"
    by (simp add: history_def Migrate_printUp_def printf_frame)
  ultimately show ?thesis using SetVersion_history [OF sv] by simp
qed

lemma down_step_last:
  assumes "down_step s m = (None, m')"
  shows "history m' \<noteq> [] \<and> last (history m') = (Version (snd s), Description (snd s))"
proof -
  obtain r1 d1 where a: "the (Down (fst s)) (db m) = (r1, d1)"
    by (cases "the (Down (fst s)) (db m)")
  let ?m1 = "m\<lparr>db := d1, invoked := invoked m @ [fst s]\<rparr>"
  obtain r2 m2 where
    sv: "Migrate_SetVersion ?m1 (Version (snd s)) (Description (snd s)) = (r2, m2)"
    by (cases "Migrate_SetVersion ?m1 (Version (snd s)) (Description (snd s))")
  from assms a sv have "r1 = None" "r2 = None"
    "m' = Migrate_printDown m2 (Version (fst s)) (Description (fst s))"
    by (auto simp: down_step_def split: option.splits)
  moreover have
    "history (Migrate_printDown m2 (Version (fst s)) (Description (fst s))) = history m2"
    by (simp add: history_def Migrate_printDown_def printf_frame)
  ultimately show ?thesis using SetVersion_history [OF sv] by simp
qed

lemma run_steps_last:
  assumes "\<And>x m m'. step x m = (None, m') \<Longrightarrow> history m' \<noteq> [] \<and> last (history m') = item x"
    and "run_steps step xs m = (None, m')" and "xs \<noteq> []"
  shows "history m' \<noteq> [] \<and> last (history m') = item (last xs)"
proof -
  from assms(3) have "xs = butlast xs @ [last xs]" by simp
  with assms(2) have "run_steps step (butlast xs @ [last xs]) m = (None, m')" by simp
  from run_steps_snoc [OF this] assms(1) show ?thesis by blast
qed

lemma sorted_le_last:
  fixes xs :: "'a::linorder list"
  shows "sorted xs \<Longrightarrow> x \<in> set xs \<Longrightarrow> x \<le> last xs"
  by (induction xs) (auto split: if_splits)

lemma sorted_key_le_last:
  fixes f :: "'a \<Rightarrow> 'b::linorder"
  assumes "sorted (map f xs)" and "x \<in> set xs"
  shows "f x \<le> f (last xs)"
proof -
  from assms(2) have ne: "xs \<noteq> []" by auto
  from sorted_le_last [OF assms(1), of "f x"] assms(2) have "f x \<le> last (map f xs)" by simp
  with ne show ?thesis by (simp add: last_map)
qed

text \<open>The plan of \<^verbatim>\<open>Down\<close> after an \<^verbatim>\<open>Up\<close> that applied \<open>b\<close> migrations from
  version \<open>v\<close>: it undoes those \<open>b\<close>, and the last step records \<open>v\<close>.\<close>

lemma round_trip_plan:
  fixes S :: "Migration list" and v :: uint64
  assumes srt: "sorted (map Version S)" and dist: "distinct (map Version S)"
    and downs: "\<forall>mg\<in>set (take b (filter (\<lambda>mg. v < Version mg) S)). Down mg \<noteq> None"
    and known: "v = 0 \<or> v \<in> Version ` set S"
    and pos: "0 < b" and enough: "b \<le> length (filter (\<lambda>mg. v < Version mg) S)"
  defines "U \<equiv> take b (filter (\<lambda>mg. v < Version mg) S)"
  defines "D \<equiv> take b (filter (\<lambda>s. down_eligible (Version (last U)) (fst s))
                          (rev (with_previous S)))"
  shows "D \<noteq> [] \<and> Version (snd (last D)) = v"
proof -
  define zero where "zero = \<lparr>Version = 0, Description = '''', Up = None, Down = None\<rparr>"
  define P where "P = filter (\<lambda>mg. Version mg \<le> v) S"
  define E where "E = filter (\<lambda>mg. v < Version mg) S"
  define R where "R = drop b E"
  have S: "S = P @ U @ R"
    using sorted_split_at [OF srt, of v] by (simp add: P_def E_def U_def R_def)
  have lenU: "length U = b" using enough by (simp add: U_def)
  with pos have Une: "U \<noteq> []" by auto
  have setU: "set U \<subseteq> set E" unfolding U_def E_def by (rule set_take_subset)
  have lastU: "last U \<in> set U" using Une by simp
  have v_lt: "v < Version (last U)" using lastU setU by (auto simp: E_def)
  have strict: "sorted_wrt (\<lambda>x y. Version x < Version y) S"
  proof -
    have "sorted_wrt (<) (map Version S)"
      using srt dist by (simp add: strict_sorted_iff)
    then show ?thesis by (simp add: sorted_wrt_map)
  qed
  have sortedU: "sorted (map Version U)"
    using srt S by (metis map_append sorted_append)
  have inU: "\<forall>x\<in>set U. down_eligible (Version (last U)) x"
    using sorted_key_le_last [OF sortedU] downs [folded U_def]
    by (auto simp: down_eligible_def)
  have inR: "\<forall>x\<in>set R. \<not> down_eligible (Version (last U)) x"
  proof
    fix x assume "x \<in> set R"
    moreover have "\<forall>a\<in>set (P @ U). \<forall>c\<in>set R. Version a < Version c"
      using strict unfolding S by (simp add: sorted_wrt_append) blast
    ultimately have "Version (last U) < Version x" using lastU by simp
    then show "\<not> down_eligible (Version (last U)) x" by (auto simp: down_eligible_def)
  qed
  have wp: "with_previous S =
      with_previous P @ zip U (last (zero # P) # U) @ zip R (last (zero # P @ U) # R)"
    using with_previous_append [of "P @ U" R] with_previous_append [of P U]
    unfolding S zero_def by simp
  let ?Q = "\<lambda>s. down_eligible (Version (last U)) (fst s)"
  define below where "below = filter ?Q (with_previous P)"
  note keepU = filter_zip_all [of U "down_eligible (Version (last U))", OF inU]
    and dropR = filter_zip_none [of R "down_eligible (Version (last U))", OF inR]
  have "filter ?Q (with_previous S) = below @ zip U (last (zero # P) # U)"
    unfolding wp below_def by (simp only: filter_append append_Nil2 keepU dropR)
  then have "filter ?Q (rev (with_previous S)) =
      rev (zip U (last (zero # P) # U)) @ rev below"
    by (simp add: rev_filter [symmetric])
  moreover have "length (rev (zip U (last (zero # P) # U))) = b"
    using lenU by simp
  ultimately have D: "D = rev (zip U (last (zero # P) # U))"
    unfolding D_def by (simp only: take_append take_all_iff order_refl diff_self_eq_0 take_0
        append_Nil2)
  have Dne: "D \<noteq> []" using D Une by (cases U) auto
  have "last D = (hd U, last (zero # P))"
    unfolding D using Une by (simp only: last_rev) (simp add: hd_zip del: last.simps)
  moreover have "Version (last (zero # P)) = v"
  proof (cases "P = []")
    case True
    have "v \<notin> Version ` set S"
    proof
      assume "v \<in> Version ` set S"
      then obtain x where "x \<in> set S" "Version x = v" by auto
      then have "x \<in> set P" by (simp add: P_def)
      with True show False by simp
    qed
    with known True show ?thesis by (simp add: zero_def)
  next
    case False
    then have lp: "last P \<in> set P" by simp
    then have le: "Version (last P) \<le> v" by (simp add: P_def)
    have sortedP: "sorted (map Version P)" unfolding P_def using srt by (rule sorted_filter)
    from known have "v \<le> Version (last P)"
    proof
      assume "v = 0"
      then show ?thesis by simp
    next
      assume "v \<in> Version ` set S"
      then obtain x where "x \<in> set S" "Version x = v" by auto
      then have "x \<in> set P" by (simp add: P_def)
      from sorted_key_le_last [OF sortedP this] \<open>Version x = v\<close> show ?thesis by simp
    qed
    with le False show ?thesis by simp
  qed
  ultimately show ?thesis using Dne by simp
qed

lemma distinct_map_sort_key:
  "distinct (map f (sort_key f xs)) = distinct (map f xs)"
  by (induction xs) (simp_all add: distinct_insort_key)

lemma migrationSort_distinct:
  "distinct (map Version (migrationSort ms)) = distinct (map Version ms)"
  by (simp add: migrationSort_def distinct_map_sort_key)

lemma migrationSort_sorted_id: "migrationSort (migrationSort ms) = migrationSort ms"
  by (simp add: migrationSort_def sort_key_id_if_sorted)

lemma migrationSort_filter_length:
  "length (filter Q (migrationSort ms)) = length (filter Q ms)"
  by (simp add: migrationSort_def filter_sort)

lemma take_filter_prefix:
  assumes "b \<le> length (filter Q xs)" and "\<forall>x\<in>set (take b (filter Q xs)). R x"
  shows "take b (filter (\<lambda>x. Q x \<and> R x) xs) = take b (filter Q xs)"
proof -
  define E where "E = filter Q xs"
  have all: "\<forall>x\<in>set (take b E). R x" and len: "b \<le> length E"
    using assms by (simp_all add: E_def)
  have "filter R E = filter R (take b E @ drop b E)" by simp
  also have "\<dots> = filter R (take b E) @ filter R (drop b E)" by (rule filter_append)
  also have "filter R (take b E) = take b E" using all by (simp add: filter_id_conv)
  finally have "take b (filter R E) = take b E"
    using len by simp
  moreover have "filter (\<lambda>x. Q x \<and> R x) xs = filter R E"
    by (simp add: E_def)
  ultimately show ?thesis by (simp only: E_def)
qed

lemma step_budget_zero: "step_budget n len = 0 \<Longrightarrow> len = 0"
  by (auto simp: step_budget_def split: if_splits)

text \<open>
  C3, as the spec states it, fails. \<^verbatim>\<open>Down(n)\<close> undoes up to \<open>n\<close> migrations whatever
  the \<^verbatim>\<open>Up(n)\<close> before it applied. At version 2 of the registry \<open>1, 2\<close>, \<^verbatim>\<open>Up(1)\<close>
  finds nothing to apply and \<^verbatim>\<open>Down(1)\<close> then undoes migration 2: the version goes from
  2 to 1. At version 15, stamped by \<^verbatim>\<open>SetVersion\<close>, of the registry \<open>10, 20\<close>,
  \<^verbatim>\<open>Up(1)\<close> applies 20 and \<^verbatim>\<open>Down(1)\<close> records 10. At version 10 of the registry
  \<open>10, 15, 20\<close> where 15 has no action, \<^verbatim>\<open>Up(1)\<close> applies 20, which has both actions,
  and \<^verbatim>\<open>Down(1)\<close> records 15, the migration before it in the list. Every call returns
  without error.
\<close>

theorem Up_then_Down_round_trip_counterexample:
  "list_all (\<lambda>mg. Up mg \<noteq> None \<and> Down mg \<noteq> None) (migrations example_Migrate_at_2)
   \<and> fst (Migrate_Version example_Migrate_at_2) = (2, ''two'', None)
   \<and> fst (Migrate_Up example_Migrate_at_2 1) = None
   \<and> fst (Migrate_Down (snd (Migrate_Up example_Migrate_at_2 1)) 1) = None
   \<and> fst (Migrate_Version (snd (Migrate_Down (snd (Migrate_Up example_Migrate_at_2 1)) 1))) =
       (1, ''one'', None)
   \<and> list_all (\<lambda>mg. Up mg \<noteq> None \<and> Down mg \<noteq> None) (migrations example_Migrate_at_15)
   \<and> fst (Migrate_Version example_Migrate_at_15) = (15, ''manual'', None)
   \<and> fst (Migrate_Up example_Migrate_at_15 1) = None
   \<and> fst (Migrate_Down (snd (Migrate_Up example_Migrate_at_15 1)) 1) = None
   \<and> fst (Migrate_Version (snd (Migrate_Down (snd (Migrate_Up example_Migrate_at_15 1)) 1))) =
       (10, ''ten'', None)
   \<and> fst (Migrate_Version example_Migrate_gap_at_10) = (10, ''ten'', None)
   \<and> fst (Migrate_Up example_Migrate_gap_at_10 1) = None
   \<and> map Version (invoked (snd (Migrate_Up example_Migrate_gap_at_10 1))) = [20]
   \<and> list_all (\<lambda>mg. Up mg \<noteq> None \<and> Down mg \<noteq> None)
        (invoked (snd (Migrate_Up example_Migrate_gap_at_10 1)))
   \<and> fst (Migrate_Down (snd (Migrate_Up example_Migrate_gap_at_10 1)) 1) = None
   \<and> fst (Migrate_Version (snd (Migrate_Down (snd (Migrate_Up example_Migrate_gap_at_10 1)) 1))) =
       (15, ''fifteen'', None)"
proof (intro conjI)
  show "list_all (\<lambda>mg. Up mg \<noteq> None \<and> Down mg \<noteq> None) (migrations example_Migrate_at_2)"
    by (simp add: example_Migrate_at_2_def NewMigrate_def example_registry_def)
  show "list_all (\<lambda>mg. Up mg \<noteq> None \<and> Down mg \<noteq> None) (migrations example_Migrate_at_15)"
    by (simp add: example_Migrate_at_15_def NewMigrate_def example_registry_tens_def)
qed code_simp+

text \<open>
  C3, amended. For every registry with pairwise distinct versions, every state whose
  current version \<open>v\<close> is 0 or the version of a migration of the registry, with at least
  as many migrations newer than \<open>v\<close> as the clamped step count \<open>c\<close>, and with both
  actions defined for each of the first \<open>c\<close> migrations newer than \<open>v\<close> (the ones
  \<^verbatim>\<open>Up(n)\<close> then applies): if \<^verbatim>\<open>Up(n)\<close>, then \<^verbatim>\<open>Down(n)\<close>, then \<^verbatim>\<open>Version()\<close>
  return without error, the version \<^verbatim>\<open>Version()\<close> returns is again \<open>v\<close>. The other
  migrations of the registry may lack either action.
\<close>

theorem Up_then_Down_round_trip:
  assumes dist: "distinct (map Version (migrations m))"
    and ver: "Migrate_Version m = ((v, d, None), m0)"
    and known: "v = 0 \<or> v \<in> Version ` set (migrations m)"
    and enough: "step_budget n (length (migrations m))
                   \<le> length (filter (\<lambda>mg. v < Version mg) (migrations m))"
    and both: "\<forall>mg\<in>set (take (step_budget n (length (migrations m)))
                         (filter (\<lambda>mg. v < Version mg) (migrationSort (migrations m)))).
                 Up mg \<noteq> None \<and> Down mg \<noteq> None"
    and up: "Migrate_Up m n = (None, m1)"
    and down: "Migrate_Down m1 n = (None, m2)"
    and after: "Migrate_Version m2 = ((v', d', None), m3)"
  shows "v' = v"
proof -
  let ?ms = "migrations m"
  let ?S = "migrationSort ?ms"
  let ?b = "step_budget n (length ?ms)"
  let ?U = "take ?b (filter (\<lambda>mg. v < Version mg) ?S)"
  let ?m0' = "m0\<lparr>migrations := ?S\<rparr>"
  note f0 = Version_frame [OF ver]
  have enough': "?b \<le> length (filter (\<lambda>mg. v < Version mg) ?S)"
    using enough by (simp add: migrationSort_filter_length)
  have ups: "\<forall>mg\<in>set ?U. Up mg \<noteq> None" and downs: "\<forall>mg\<in>set ?U. Down mg \<noteq> None"
    using both by blast+
  have plan_up: "up_plan v n ?ms = ?U"
    unfolding up_plan_def up_eligible_def [abs_def]
    by (rule take_filter_prefix [OF enough' ups])
  have run_up: "run_steps up_step ?U ?m0' = (None, m1)"
    using Up_run [OF ver, of n] up plan_up by simp
  have keep1: "migrations m1 = ?S" "migrationsCollection m1 = migrationsCollection m"
    using run_steps_keeps [of ?U up_step migrations ?m0' None m1, OF _ run_up]
      run_steps_keeps [of ?U up_step migrationsCollection ?m0' None m1, OF _ run_up]
      up_step_effect f0
    by auto
  obtain v1 d1 r1 m1' where ver1: "Migrate_Version m1 = ((v1, d1, r1), m1')"
    by (metis prod.collapse)
  have r1: "r1 = None"
  proof (cases r1)
    case (Some e)
    with Down_Version_error [of m1 v1 d1 e m1' n] ver1 down show ?thesis by simp
  qed simp
  note f1 = Version_frame [OF ver1]
  let ?m1'' = "m1'\<lparr>migrations := ?S\<rparr>"
  have b1: "step_budget n (length (migrations m1)) = ?b"
    by (simp add: keep1 migrationSort_length)
  have plan_down: "down_plan v1 n (migrations m1) =
      take ?b (filter (\<lambda>s. down_eligible v1 (fst s)) (rev (with_previous ?S)))"
    using b1 by (simp add: down_plan_def keep1 migrationSort_sorted_id)
  have run_down: "run_steps down_step (down_plan v1 n (migrations m1)) ?m1'' = (None, m2)"
    using Down_run [of m1 v1 d1 m1' n] ver1 r1 down
    by (simp add: keep1 migrationSort_sorted_id)
  have cv: "(v, d) = (if history m = [] then (0, '''') else last (history m))"
    using Version_result [OF ver] current_version_history [of m] by simp
  have cv1: "(v1, d1) = (if history m1 = [] then (0, '''') else last (history m1))"
    using Version_result [OF ver1] r1 current_version_history [of m1] by simp
  have cv2: "(v', d') = (if history m2 = [] then (0, '''') else last (history m2))"
    using Version_result [OF after] current_version_history [of m2] by simp
  show ?thesis
  proof (cases "?b = 0")
    case True
    then have "?ms = []" using step_budget_zero by auto
    then have S: "?S = []" by (simp add: migrationSort_def)
    with run_up have m1: "m1 = ?m0'" by simp
    from S plan_down have "down_plan v1 n (migrations m1) = []" by (simp add: with_previous_def)
    with run_down have m2: "m2 = ?m1''" by simp
    have "history m2 = history m"
      using m1 m2 f0 f1 by (simp add: history_def)
    with cv2 have "(v', d') = (if history m = [] then (0, '''') else last (history m))"
      by (simp cong: if_cong)
    with cv have "(v', d') = (v, d)" by (simp only:)
    then show ?thesis by simp
  next
    case False
    then have pos: "0 < ?b" by simp
    from enough' have "length ?U = ?b" by simp
    with pos have Une: "?U \<noteq> []" by auto
    from run_steps_last [of up_step "\<lambda>mg. (Version mg, Description mg)", OF up_step_last run_up Une]
    have "history m1 \<noteq> []" "last (history m1) = (Version (last ?U), Description (last ?U))"
      by simp_all
    with cv1 have v1: "v1 = Version (last ?U)" by simp
    let ?D = "take ?b (filter (\<lambda>s. down_eligible (Version (last ?U)) (fst s))
                          (rev (with_previous ?S)))"
    have plan: "?D \<noteq> [] \<and> Version (snd (last ?D)) = v"
    proof (rule round_trip_plan [OF migrationSort_sorted _ _ _ pos enough'])
      show "distinct (map Version ?S)" using dist by (simp add: migrationSort_distinct)
      show "\<forall>mg\<in>set ?U. Down mg \<noteq> None" by (rule downs)
      show "v = 0 \<or> v \<in> Version ` set ?S" using known by (simp add: migrationSort_set)
    qed
    have run_down': "run_steps down_step ?D ?m1'' = (None, m2)"
      using run_down plan_down v1 by simp
    from run_steps_last [of down_step "\<lambda>s. (Version (snd s), Description (snd s))",
        OF down_step_last run_down'] plan
    have "history m2 \<noteq> []" "last (history m2) = (Version (snd (last ?D)), Description (snd (last ?D)))"
      by simp_all
    with cv2 plan show ?thesis by simp
  qed
qed

theorem Up_then_Down_round_trip_witness:
  "distinct (map Version (migrations example_Migrate))
   \<and> fst (Migrate_Version example_Migrate) = (0, '''', None)
   \<and> fst (Migrate_Up example_Migrate 1) = None
   \<and> map Version (invoked (snd (Migrate_Up example_Migrate 1))) = [1]
   \<and> fst (Migrate_Down (snd (Migrate_Up example_Migrate 1)) 1) = None
   \<and> fst (fst (Migrate_Version (snd (Migrate_Down (snd (Migrate_Up example_Migrate 1)) 1)))) = 0
   \<and> distinct (map Version (migrations example_Migrate_three_at_1))
   \<and> Down (example_registry_three ! 2) = None
   \<and> fst (Migrate_Version example_Migrate_three_at_1) = (1, ''one'', None)
   \<and> fst (Migrate_Up example_Migrate_three_at_1 1) = None
   \<and> map Version (invoked (snd (Migrate_Up example_Migrate_three_at_1 1))) = [2]
   \<and> fst (Migrate_Down (snd (Migrate_Up example_Migrate_three_at_1 1)) 1) = None
   \<and> fst (fst (Migrate_Version
         (snd (Migrate_Down (snd (Migrate_Up example_Migrate_three_at_1 1)) 1)))) = 1"
proof -
  have first: "distinct (map Version (migrations example_Migrate))
   \<and> fst (Migrate_Version example_Migrate) = (0, '''', None)
   \<and> fst (Migrate_Up example_Migrate 1) = None
   \<and> map Version (invoked (snd (Migrate_Up example_Migrate 1))) = [1]
   \<and> fst (Migrate_Down (snd (Migrate_Up example_Migrate 1)) 1) = None
   \<and> fst (fst (Migrate_Version (snd (Migrate_Down (snd (Migrate_Up example_Migrate 1)) 1)))) = 0"
  proof -
    let ?m = example_Migrate
    let ?m1 = "snd (Migrate_Up ?m 1)"
    let ?m2 = "snd (Migrate_Down ?m1 1)"
    have ms: "migrations ?m = example_registry"
      by (simp add: example_Migrate_def NewMigrate_def)
    have dist: "distinct (map Version (migrations ?m))"
      unfolding ms by (simp add: example_registry_def)
    have v: "fst (Migrate_Version ?m) = (0, '''', None)" by code_simp
    then have ver: "Migrate_Version ?m = ((0, '''', None), snd (Migrate_Version ?m))"
      by (cases "Migrate_Version ?m") auto
    have known: "(0::uint64) = 0 \<or> 0 \<in> Version ` set (migrations ?m)" by simp
    have enough: "step_budget 1 (length (migrations ?m))
        \<le> length (filter (\<lambda>mg. 0 < Version mg) (migrations ?m))"
      unfolding ms by (simp add: step_budget_def example_registry_def)
    have both: "\<forall>mg\<in>set (take (step_budget 1 (length (migrations ?m)))
                         (filter (\<lambda>mg. 0 < Version mg) (migrationSort (migrations ?m)))).
                 Up mg \<noteq> None \<and> Down mg \<noteq> None"
      unfolding ms
      by (simp add: step_budget_def migrationSort_def example_registry_def word_le_nat_alt)
    have u: "fst (Migrate_Up ?m 1) = None" by code_simp
    then have up: "Migrate_Up ?m 1 = (None, ?m1)" by (cases "Migrate_Up ?m 1") auto
    have i: "map Version (invoked ?m1) = [1]" by code_simp
    have dn: "fst (Migrate_Down ?m1 1) = None" by code_simp
    then have down: "Migrate_Down ?m1 1 = (None, ?m2)" by (cases "Migrate_Down ?m1 1") auto
    have "snd (snd (fst (Migrate_Version ?m2))) = None" by code_simp
    then have after: "Migrate_Version ?m2 =
        ((fst (fst (Migrate_Version ?m2)), fst (snd (fst (Migrate_Version ?m2))), None),
         snd (Migrate_Version ?m2))"
      by (metis prod.collapse)
    from Up_then_Down_round_trip [OF dist ver known enough both up down after]
    have "fst (fst (Migrate_Version ?m2)) = 0" .
    with dist v u i dn show ?thesis by simp
  qed
  have second: "distinct (map Version (migrations example_Migrate_three_at_1))
   \<and> Down (example_registry_three ! 2) = None
   \<and> fst (Migrate_Version example_Migrate_three_at_1) = (1, ''one'', None)
   \<and> fst (Migrate_Up example_Migrate_three_at_1 1) = None
   \<and> map Version (invoked (snd (Migrate_Up example_Migrate_three_at_1 1))) = [2]
   \<and> fst (Migrate_Down (snd (Migrate_Up example_Migrate_three_at_1 1)) 1) = None
   \<and> fst (fst (Migrate_Version
         (snd (Migrate_Down (snd (Migrate_Up example_Migrate_three_at_1 1)) 1)))) = 1"
  proof -
    let ?m = example_Migrate_three_at_1
    let ?m1 = "snd (Migrate_Up ?m 1)"
    let ?m2 = "snd (Migrate_Down ?m1 1)"
    have ms: "migrations ?m = example_registry_three"
      by (simp add: example_Migrate_three_at_1_def NewMigrate_def)
    have dist: "distinct (map Version (migrations ?m))"
      unfolding ms by (simp add: example_registry_three_def)
    have nodown: "Down (example_registry_three ! 2) = None"
      by (simp add: example_registry_three_def)
    have v: "fst (Migrate_Version ?m) = (1, ''one'', None)" by code_simp
    then have ver: "Migrate_Version ?m = ((1, ''one'', None), snd (Migrate_Version ?m))"
      by (cases "Migrate_Version ?m") auto
    have known: "(1::uint64) = 0 \<or> 1 \<in> Version ` set (migrations ?m)"
      unfolding ms by (simp add: example_registry_three_def)
    have enough: "step_budget 1 (length (migrations ?m))
        \<le> length (filter (\<lambda>mg. 1 < Version mg) (migrations ?m))"
      unfolding ms by (simp add: step_budget_def example_registry_three_def word_less_nat_alt)
    have both: "\<forall>mg\<in>set (take (step_budget 1 (length (migrations ?m)))
                         (filter (\<lambda>mg. 1 < Version mg) (migrationSort (migrations ?m)))).
                 Up mg \<noteq> None \<and> Down mg \<noteq> None"
      unfolding ms
      by (simp add: step_budget_def migrationSort_def example_registry_three_def
          word_le_nat_alt word_less_nat_alt)
    have u: "fst (Migrate_Up ?m 1) = None" by code_simp
    then have up: "Migrate_Up ?m 1 = (None, ?m1)" by (cases "Migrate_Up ?m 1") auto
    have i: "map Version (invoked ?m1) = [2]" by code_simp
    have dn: "fst (Migrate_Down ?m1 1) = None" by code_simp
    then have down: "Migrate_Down ?m1 1 = (None, ?m2)" by (cases "Migrate_Down ?m1 1") auto
    have "snd (snd (fst (Migrate_Version ?m2))) = None" by code_simp
    then have after: "Migrate_Version ?m2 =
        ((fst (fst (Migrate_Version ?m2)), fst (snd (fst (Migrate_Version ?m2))), None),
         snd (Migrate_Version ?m2))"
      by (metis prod.collapse)
    from Up_then_Down_round_trip [OF dist ver known enough both up down after]
    have "fst (fst (Migrate_Version ?m2)) = 1" .
    with dist nodown v u i dn show ?thesis by simp
  qed
  from first second show ?thesis by simp
qed

end
